theory Spec2Isabelle
  imports Complex_Main
begin

section \<open>float64 arithmetic\<close>

text \<open>
  The statistics of \<^verbatim>\<open>main.go\<close> are written over Go's \<^verbatim>\<open>float64\<close>. Their translation
  below takes the arithmetic as a parameter: a record of the operations the source uses
  (addition, subtraction, division, \<^verbatim>\<open>math.Pow(x, 2)\<close>, \<^verbatim>\<open>math.Sqrt\<close>, \<^verbatim>\<open>math.Abs\<close>, the
  conversion \<^verbatim>\<open>float64(n)\<close>, the comparisons "greater than" and "not equal", and the
  literals \<^verbatim>\<open>0.0\<close> and \<^verbatim>\<open>2.0\<close>). Two arithmetics are given:
  \<^item> \<open>f64_ops\<close>: IEEE 754 binary64 with round-to-nearest, ties-to-even, gradual underflow,
    overflow to infinity and NaN, which is what Go's \<^verbatim>\<open>float64\<close> is;
  \<^item> \<open>exact_ops\<close>: the real numbers, with no rounding, for the formulas the statistics
    compute.
  Properties that do not depend on the arithmetic are proved for every such record.
\<close>

record 'f float_ops =
  f_zero :: 'f
  f_two :: 'f
  f_add :: "'f \<Rightarrow> 'f \<Rightarrow> 'f"
  f_sub :: "'f \<Rightarrow> 'f \<Rightarrow> 'f"
  f_div :: "'f \<Rightarrow> 'f \<Rightarrow> 'f"
  f_pow2 :: "'f \<Rightarrow> 'f"
  f_sqrt :: "'f \<Rightarrow> 'f"
  f_abs :: "'f \<Rightarrow> 'f"
  f_of_nat :: "nat \<Rightarrow> 'f"
  f_gt :: "'f \<Rightarrow> 'f \<Rightarrow> bool"
  f_ne :: "'f \<Rightarrow> 'f \<Rightarrow> bool"

subsection \<open>Exact arithmetic\<close>

definition exact_ops :: "real float_ops" where
  "exact_ops =
     \<lparr>f_zero = 0, f_two = 2,
      f_add = (\<lambda>x y. x + y), f_sub = (\<lambda>x y. x - y), f_div = (\<lambda>x y. x / y),
      f_pow2 = (\<lambda>x. x\<^sup>2), f_sqrt = sqrt, f_abs = (\<lambda>x. \<bar>x\<bar>), f_of_nat = real,
      f_gt = (\<lambda>x y. y < x), f_ne = (\<lambda>x y. x \<noteq> y)\<rparr>"

subsection \<open>IEEE 754 binary64\<close>

text \<open>
  A binary64 value is finite, an infinity or NaN. The finite value \<open>Fin m e\<close> is the
  number \<open>m \<sqdot> 2\<^sup>e\<close>; the operations return it with \<open>m\<close> odd, and zero as \<open>Fin 0 0\<close>.
  The sign of zero is not modelled: it could only show in a division by zero, and the
  source divides by a length, by a length minus one that is at least one, and by a
  standard deviation it has compared with zero first. Every operation takes the exact
  result and rounds it once (to nearest, a tie to the even neighbour), as IEEE 754
  prescribes for addition, subtraction, division, square root and the conversion from
  integers.
\<close>

datatype f64 = Fin int int | PInf | NInf | NaN

text \<open>The number of binary digits of a positive integer (0 for the others).\<close>

function bitlen :: "int \<Rightarrow> nat" where
  "bitlen n = (if n \<le> 0 then 0 else Suc (bitlen (n div 2)))"
  by pat_completeness auto
termination
  by (relation "measure nat") auto

text \<open>The integer square root, rounded down, one binary digit at a time.\<close>

function isqrt :: "int \<Rightarrow> int" where
  "isqrt n = (if n < 1 then 0 else
     let r = 2 * isqrt (n div 4) in if (r + 1) * (r + 1) \<le> n then r + 1 else r)"
  by pat_completeness auto
termination
  by (relation "measure nat") auto

text \<open>Powers of two, by repeated squaring: \<open>p2 n = 2\<^sup>n\<close> for \<open>0 \<le> n\<close>.\<close>

function p2 :: "int \<Rightarrow> int" where
  "p2 n = (if n \<le> 0 then 1 else
     let h = p2 (n div 2) in if even n then h * h else 2 * (h * h))"
  by pat_completeness auto
termination
  by (relation "measure nat") auto

text \<open>The representation with an odd \<open>m\<close>.\<close>

function strip :: "int \<Rightarrow> int \<Rightarrow> int \<times> int" where
  "strip m e = (if m = 0 then (0, 0) else if even m then strip (m div 2) (e + 1) else (m, e))"
  by pat_completeness auto
termination
  by (relation "measure (\<lambda>(m, e). nat \<bar>m\<bar>)") auto

declare bitlen.simps [simp del] isqrt.simps [simp del] p2.simps [simp del] strip.simps [simp del]

text \<open>
  For \<open>0 < n\<close> and \<open>0 < b\<close>, the exponent \<open>lg\<close> of the leading binary digit of \<open>n / b\<close>:
  \<open>2\<^sup>l\<^sup>g \<le> n / b < 2\<^sup>l\<^sup>g\<^sup>+\<^sup>1\<close>.
\<close>

definition floor_log2 :: "int \<Rightarrow> int \<Rightarrow> int" where
  "floor_log2 n b =
     (let k = int (bitlen n) - int (bitlen b)
      in if (if 0 \<le> k then b * p2 k \<le> n else b \<le> n * p2 (- k)) then k else k - 1)"

text \<open>For \<open>0 \<le> N\<close> and \<open>0 < D\<close>, the integer nearest to \<open>N / D\<close>, a tie to the even one.\<close>

definition round_div :: "int \<Rightarrow> int \<Rightarrow> int" where
  "round_div N D =
     (let q = N div D;
          r = N mod D
      in if 2 * r < D then q else if D < 2 * r then q + 1 else if even q then q else q + 1)"

definition fin :: "int \<Rightarrow> int \<Rightarrow> f64" where
  "fin m e = (case strip m e of (m', e') \<Rightarrow> Fin m' e')"

text \<open>
  Rounding the exact number \<open>(n / b) \<sqdot> 2\<^sup>e\<close>, for \<open>0 < n\<close> and \<open>0 < b\<close>, to binary64.
  The last binary digit kept has the exponent \<open>ulp_exp n b e\<close>: 52 below the leading
  digit (53 significant digits), and never less than \<open>-1074\<close> (the subnormal numbers).
  \<open>round_quot n b e\<close> is the quotient of the number by \<open>2\<close> to that exponent, rounded to
  the nearest integer, a tie to the even one.
\<close>

definition ulp_exp :: "int \<Rightarrow> int \<Rightarrow> int \<Rightarrow> int" where
  "ulp_exp n b e = max (floor_log2 n b + e - 52) (- 1074)"

definition round_quot :: "int \<Rightarrow> int \<Rightarrow> int \<Rightarrow> int" where
  "round_quot n b e =
     (let s = e - ulp_exp n b e
      in if 0 \<le> s then round_div (n * p2 s) b else round_div n (b * p2 (- s)))"

text \<open>
  \<open>rnd_frac a b e\<close> rounds the exact number \<open>(a / b) \<sqdot> 2\<^sup>e\<close>, for \<open>0 < b\<close>, to binary64:
  the rounded quotient \<open>q\<close> of its magnitude, times \<open>2\<^sup>E\<close> for the exponent \<open>E\<close> of the last
  digit, with the sign of \<open>a\<close>; an infinity when \<open>q \<sqdot> 2\<^sup>E\<close> reaches \<open>2\<^sup>1\<^sup>0\<^sup>2\<^sup>4\<close>.
\<close>

definition rnd_frac :: "int \<Rightarrow> int \<Rightarrow> int \<Rightarrow> f64" where
  "rnd_frac a b e = (if a = 0 then Fin 0 0 else
     let n = \<bar>a\<bar>;
         E = ulp_exp n b e;
         q = round_quot n b e
     in if 1024 < int (bitlen q) + E then (if 0 < a then PInf else NInf)
        else fin (if 0 < a then q else - q) E)"

fun f64_neg :: "f64 \<Rightarrow> f64" where
  "f64_neg (Fin m e) = Fin (- m) e"
| "f64_neg PInf = NInf"
| "f64_neg NInf = PInf"
| "f64_neg NaN = NaN"

fun f64_add :: "f64 \<Rightarrow> f64 \<Rightarrow> f64" where
  "f64_add (Fin m1 e1) (Fin m2 e2) =
     (let e = min e1 e2 in rnd_frac (m1 * p2 (e1 - e) + m2 * p2 (e2 - e)) 1 e)"
| "f64_add NaN _ = NaN"
| "f64_add _ NaN = NaN"
| "f64_add PInf NInf = NaN"
| "f64_add NInf PInf = NaN"
| "f64_add PInf _ = PInf"
| "f64_add NInf _ = NInf"
| "f64_add _ PInf = PInf"
| "f64_add _ NInf = NInf"

definition f64_sub :: "f64 \<Rightarrow> f64 \<Rightarrow> f64" where
  "f64_sub x y = f64_add x (f64_neg y)"

text \<open>The sign as \<open>1\<close> or \<open>-1\<close>; zero counts as positive.\<close>

fun f64_sgn :: "f64 \<Rightarrow> int" where
  "f64_sgn (Fin m e) = (if m < 0 then - 1 else 1)"
| "f64_sgn PInf = 1"
| "f64_sgn NInf = - 1"
| "f64_sgn NaN = 1"

definition f64_inf :: "int \<Rightarrow> f64" where
  "f64_inf s = (if s < 0 then NInf else PInf)"

text \<open>
  \<^verbatim>\<open>math.Pow(x, 2)\<close>, as Go's \<^verbatim>\<open>pow\<close> computes it for the exponent 2: zero, the infinities
  and NaN are special cases; otherwise \<^verbatim>\<open>Frexp\<close> splits \<open>x\<close> into a significand and an
  exponent, the significand is multiplied by itself (one rounding to 53 digits, with no
  underflow or overflow), and \<^verbatim>\<open>Ldexp\<close> scales the product by the doubled exponent, which
  rounds a second time when the result is subnormal and gives an infinity when it is too
  large.
\<close>

fun f64_pow2 :: "f64 \<Rightarrow> f64" where
  "f64_pow2 (Fin m e) =
     (if m = 0 then Fin 0 0
      else (case rnd_frac (m * m) 1 0 of
              Fin m' e' \<Rightarrow> rnd_frac m' 1 (e' + 2 * e)
            | PInf \<Rightarrow> PInf
            | NInf \<Rightarrow> NInf
            | NaN \<Rightarrow> NaN))"
| "f64_pow2 PInf = PInf"
| "f64_pow2 NInf = PInf"
| "f64_pow2 NaN = NaN"

fun f64_div :: "f64 \<Rightarrow> f64 \<Rightarrow> f64" where
  "f64_div (Fin m1 e1) (Fin m2 e2) =
     (if m2 = 0 then (if m1 = 0 then NaN else f64_inf (f64_sgn (Fin m1 e1)))
      else rnd_frac (if 0 < m2 then m1 else - m1) \<bar>m2\<bar> (e1 - e2))"
| "f64_div NaN _ = NaN"
| "f64_div _ NaN = NaN"
| "f64_div (Fin m e) _ = Fin 0 0"
| "f64_div PInf (Fin m e) = f64_inf (f64_sgn (Fin m e))"
| "f64_div NInf (Fin m e) = f64_inf (- f64_sgn (Fin m e))"
| "f64_div _ _ = NaN"

text \<open>
  The square root of \<open>m \<sqdot> 2\<^sup>e\<close> for \<open>0 < m\<close>: the exponent is made even, the integer
  is scaled to at least 108 binary digits, and its integer root \<open>r\<close> (at least 54 digits)
  is rounded with one more digit after it that says whether the root is exact.
\<close>

definition sqrt_frac :: "int \<Rightarrow> int \<Rightarrow> f64" where
  "sqrt_frac m e =
     (let m1 = (if even e then m else 2 * m);
          e1 = (if even e then e else e - 1);
          j = max 0 ((109 - int (bitlen m1)) div 2);
          t = m1 * p2 (2 * j);
          r = isqrt t;
          sticky = (if r * r = t then 0 else 1)
      in rnd_frac (2 * r + sticky) 1 (e1 div 2 - j - 1))"

fun f64_sqrt :: "f64 \<Rightarrow> f64" where
  "f64_sqrt (Fin m e) = (if m < 0 then NaN else if m = 0 then Fin 0 0 else sqrt_frac m e)"
| "f64_sqrt PInf = PInf"
| "f64_sqrt NInf = NaN"
| "f64_sqrt NaN = NaN"

fun f64_abs :: "f64 \<Rightarrow> f64" where
  "f64_abs (Fin m e) = Fin \<bar>m\<bar> e"
| "f64_abs PInf = PInf"
| "f64_abs NInf = PInf"
| "f64_abs NaN = NaN"

text \<open>The comparisons: every ordered comparison with NaN is false, and NaN differs from
  everything.\<close>

fun f64_gt :: "f64 \<Rightarrow> f64 \<Rightarrow> bool" where
  "f64_gt (Fin m1 e1) (Fin m2 e2) =
     (let e = min e1 e2 in m2 * p2 (e2 - e) < m1 * p2 (e1 - e))"
| "f64_gt NaN _ = False"
| "f64_gt _ NaN = False"
| "f64_gt PInf PInf = False"
| "f64_gt PInf _ = True"
| "f64_gt _ PInf = False"
| "f64_gt NInf _ = False"
| "f64_gt _ NInf = True"

fun f64_ne :: "f64 \<Rightarrow> f64 \<Rightarrow> bool" where
  "f64_ne (Fin m1 e1) (Fin m2 e2) =
     (let e = min e1 e2 in m1 * p2 (e1 - e) \<noteq> m2 * p2 (e2 - e))"
| "f64_ne NaN _ = True"
| "f64_ne _ NaN = True"
| "f64_ne PInf y = (y \<noteq> PInf)"
| "f64_ne NInf y = (y \<noteq> NInf)"
| "f64_ne (Fin m e) _ = True"

definition f64_of_nat :: "nat \<Rightarrow> f64" where
  "f64_of_nat n = rnd_frac (int n) 1 0"

definition f64_ops :: "f64 float_ops" where
  "f64_ops =
     \<lparr>f_zero = Fin 0 0, f_two = Fin 1 1,
      f_add = f64_add, f_sub = f64_sub, f_div = f64_div,
      f_pow2 = f64_pow2, f_sqrt = f64_sqrt, f_abs = f64_abs,
      f_of_nat = f64_of_nat,
      f_gt = f64_gt, f_ne = f64_ne\<rparr>"

text \<open>A decimal number of the JSON input denotes the binary64 value nearest to it.\<close>

definition f64_lit :: "rat \<Rightarrow> f64" where
  "f64_lit x = (case quotient_of x of (a, b) \<Rightarrow> rnd_frac a b 0)"

text \<open>
  \<open>f64_near x c tol\<close>: the binary64 value \<open>x\<close> is finite and within \<open>tol\<close> of the
  rational \<open>c\<close>.
\<close>

definition f64_near :: "f64 \<Rightarrow> rat \<Rightarrow> rat \<Rightarrow> bool" where
  "f64_near x c tol =
     (case x of
        Fin m e \<Rightarrow>
          (let v = (if 0 \<le> e then of_int (m * p2 e) else of_int m / of_int (p2 (- e)))
           in \<bar>v - c\<bar> \<le> tol)
      | PInf \<Rightarrow> False
      | NInf \<Rightarrow> False
      | NaN \<Rightarrow> False)"

text \<open>
  The real number that the finite value \<open>Fin m e\<close> stands for, the real numbers that are
  finite binary64 values (at most 53 binary digits, times a power of two from \<open>2\<^sup>-\<^sup>1\<^sup>0\<^sup>7\<^sup>4\<close>
  to \<open>2\<^sup>9\<^sup>7\<^sup>1\<close>), and what it is for such a value to be nearest to a real number.
\<close>

definition dyadic :: "int \<Rightarrow> int \<Rightarrow> real" where
  "dyadic m e = real_of_int m * 2 powi e"

definition binary64 :: "real \<Rightarrow> bool" where
  "binary64 y \<longleftrightarrow>
     (\<exists>q E. \<bar>q\<bar> < 2 ^ 53 \<and> - 1074 \<le> E \<and> E \<le> 971 \<and> y = real_of_int q * 2 powi E)"

definition nearest_binary64 :: "real \<Rightarrow> real \<Rightarrow> bool" where
  "nearest_binary64 v x \<longleftrightarrow> binary64 v \<and> (\<forall>z. binary64 z \<longrightarrow> \<bar>v - x\<bar> \<le> \<bar>z - x\<bar>)"

section \<open>Rolling statistics\<close>

text \<open>
  \<^verbatim>\<open>calculateAverage\<close> and \<^verbatim>\<open>calculateStandardDeviation\<close>: each \<^verbatim>\<open>for ... range\<close> loop
  adds to \<^verbatim>\<open>sum\<close> from the left, starting at \<^verbatim>\<open>0.0\<close>, which is a left fold.
\<close>

definition calculateAverage :: "'f float_ops \<Rightarrow> 'f list \<Rightarrow> 'f" where
  "calculateAverage fl vals =
     (if length vals = 0 then f_zero fl
      else let sum = foldl (\<lambda>sum v. f_add fl sum v) (f_zero fl) vals
           in f_div fl sum (f_of_nat fl (length vals)))"

definition calculateStandardDeviation :: "'f float_ops \<Rightarrow> 'f list \<Rightarrow> 'f \<Rightarrow> 'f" where
  "calculateStandardDeviation fl vals mean =
     (if length vals \<le> 1 then f_zero fl
      else let sum = foldl (\<lambda>sum v. f_add fl sum (f_pow2 fl (f_sub fl v mean))) (f_zero fl) vals;
               variance = f_div fl sum (f_of_nat fl (length vals - 1))
           in f_sqrt fl variance)"

section \<open>Data model\<close>

text \<open>
  \<^verbatim>\<open>Metric\<close>, the observation. The timestamp is an instant, here an integer; nothing
  below computes with it.
\<close>

record 'f Metric =
  Timestamp :: int
  CPU :: 'f
  RPS :: 'f

text \<open>
  The Redis server behind \<^verbatim>\<open>redisClient\<close>: the integer under the key
  \<^verbatim>\<open>request_count\<close> (a missing key counts as 0, as \<^verbatim>\<open>INCR\<close> reads it) and the list under
  the key \<^verbatim>\<open>metrics\<close>, oldest entry first. The list holds the metrics themselves: the JSON
  text written by \<^verbatim>\<open>json.Marshal\<close> and read back by \<^verbatim>\<open>json.Unmarshal\<close> is not modelled.
\<close>

record 'f redis_db =
  request_count :: int
  metrics :: "'f Metric list"

text \<open>The lines written by \<^verbatim>\<open>log.Printf\<close> in \<^verbatim>\<open>handleAnalyze\<close>, with their arguments.\<close>

datatype 'f log_line =
  LogIncrError
| LogIncremented int
| LogRPushError
| LogLTrimError
| LogLRangeError
| LogAnomaly 'f 'f 'f 'f
| LogProcessed int 'f 'f 'f

text \<open>
  \<^verbatim>\<open>AppState\<close>: the store, the window size, the two Prometheus counters and the three
  gauges. The process log is kept in the same record.
\<close>

record 'f AppState =
  redisClient :: "'f redis_db"
  windowSize :: int
  requestCounter :: nat
  anomalyCounter :: nat
  cpuGauge :: 'f
  rpsGauge :: 'f
  rollingAvgGauge :: 'f
  log_output :: "'f log_line list"

text \<open>
  A request to \<^verbatim>\<open>/analyze\<close>: its method, and what \<^verbatim>\<open>json.NewDecoder(r.Body).Decode\<close>
  makes of its body, \<open>None\<close> when the decoder returns an error.
\<close>

record 'f request =
  Method :: string
  Body :: "'f Metric option"

record response =
  StatusCode :: nat
  ResponseText :: string

section \<open>Redis commands\<close>

text \<open>
  Every call of the client can return an error. Which calls do is an input of the model
  (\<open>redis_faults\<close>, one flag per call of \<^verbatim>\<open>handleAnalyze\<close>); a call that returns an error
  leaves the store as it was. \<^verbatim>\<open>INCR\<close> also fails, by itself, at the largest 64-bit integer.
\<close>

datatype redis_error = RedisError

record redis_faults =
  incr_err :: bool
  rpush_err :: bool
  ltrim_err :: bool
  lrange_err :: bool

definition redis_Incr :: "bool \<Rightarrow> int \<Rightarrow> redis_error + int" where
  "redis_Incr fails n =
     (if fails \<or> n = 9223372036854775807 then Inl RedisError else Inr (n + 1))"

definition redis_RPush :: "bool \<Rightarrow> 'a list \<Rightarrow> 'a \<Rightarrow> redis_error + 'a list" where
  "redis_RPush fails xs x = (if fails then Inl RedisError else Inr (xs @ [x]))"

text \<open>
  The entries from index \<open>start\<close> to index \<open>stop\<close>, both included, as \<^verbatim>\<open>LTRIM\<close> and
  \<^verbatim>\<open>LRANGE\<close> read their indices: a negative index counts from the end of the list, a start
  before the list is its first entry, a stop after the list is its last entry.
\<close>

definition redis_range :: "'a list \<Rightarrow> int \<Rightarrow> int \<Rightarrow> 'a list" where
  "redis_range xs start stop =
     (let llen = int (length xs);
          start1 = (if start < 0 then llen + start else start);
          stop1 = (if stop < 0 then llen + stop else stop);
          start2 = (if start1 < 0 then 0 else start1)
      in if stop1 < start2 \<or> llen \<le> start2 then []
         else let stop2 = (if llen \<le> stop1 then llen - 1 else stop1)
              in take (nat (stop2 - start2 + 1)) (drop (nat start2) xs))"

definition redis_LTrim :: "bool \<Rightarrow> 'a list \<Rightarrow> int \<Rightarrow> int \<Rightarrow> redis_error + 'a list" where
  "redis_LTrim fails xs start stop =
     (if fails then Inl RedisError else Inr (redis_range xs start stop))"

definition redis_LRange :: "bool \<Rightarrow> 'a list \<Rightarrow> int \<Rightarrow> int \<Rightarrow> redis_error + 'a list" where
  "redis_LRange fails xs start stop =
     (if fails then Inl RedisError else Inr (redis_range xs start stop))"

section \<open>Configuration\<close>

text \<open>
  The process environment maps a variable's name to its text; \<^verbatim>\<open>os.Getenv\<close> gives the
  empty string for a variable that is not set.
\<close>

type_synonym environ = "string \<rightharpoonup> string"

definition os_Getenv :: "environ \<Rightarrow> string \<Rightarrow> string" where
  "os_Getenv env key = (case env key of None \<Rightarrow> [] | Some v \<Rightarrow> v)"

definition getEnv :: "environ \<Rightarrow> string \<Rightarrow> string \<Rightarrow> string" where
  "getEnv env key defaultValue =
     (let v = os_Getenv env key in if v = [] then defaultValue else v)"

text \<open>
  What \<^verbatim>\<open>main\<close> settles before it serves: the address and password of the store, the
  port, and the \<^verbatim>\<open>AppState\<close> with its window size. The connection attempts and the HTTP
  server are not modelled. The counters and gauges start at zero.
\<close>

record config =
  redisAddr :: string
  redisPassword :: string
  port :: string

definition main_config :: "environ \<Rightarrow> config" where
  "main_config env =
     \<lparr>redisAddr = getEnv env ''REDIS_ADDR'' ''redis-master.default.svc.cluster.local:6379'',
      redisPassword = getEnv env ''REDIS_PASSWORD'' [],
      port = getEnv env ''PORT'' ''8080''\<rparr>"

definition main_appState :: "'f float_ops \<Rightarrow> environ \<Rightarrow> 'f redis_db \<Rightarrow> 'f AppState" where
  "main_appState fl env rdb =
     \<lparr>redisClient = rdb,
      windowSize = 50,
      requestCounter = 0,
      anomalyCounter = 0,
      cpuGauge = f_zero fl,
      rpsGauge = f_zero fl,
      rollingAvgGauge = f_zero fl,
      log_output = []\<rparr>"

section \<open>The handler of /analyze\<close>

text \<open>
  The statistics pass of the goroutine, from the loop over the window to the last log
  line: the rolling average goes to its gauge, and the anomaly counter is incremented
  when the z-score of the submitted RPS value exceeds 2.0 in magnitude.
\<close>

definition evaluateWindow :: "'f float_ops \<Rightarrow> 'f Metric \<Rightarrow> 'f Metric list \<Rightarrow> 'f AppState \<Rightarrow> 'f AppState" where
  "evaluateWindow fl m window s =
     (let rpsValues = map RPS window;
          cpuValues = map CPU window;
          rollingAvg = calculateAverage fl rpsValues;
          s1 = s\<lparr>rollingAvgGauge := rollingAvg\<rparr>;
          s2 = (if 2 \<le> length rpsValues then
                  let currentValue = RPS m;
                      mean = calculateAverage fl rpsValues;
                      stdDev = calculateStandardDeviation fl rpsValues mean
                  in if f_ne fl stdDev (f_zero fl) then
                       let zScore = f_div fl (f_sub fl currentValue mean) stdDev
                       in if f_gt fl (f_abs fl zScore) (f_two fl) then
                            s1\<lparr>log_output := log_output s1 @ [LogAnomaly currentValue zScore mean stdDev],
                               anomalyCounter := anomalyCounter s1 + 1\<rparr>
                          else s1
                     else s1
                else s1)
      in s2\<lparr>log_output := log_output s2 @ [LogProcessed (Timestamp m) (RPS m) (CPU m) rollingAvg]\<rparr>)"

text \<open>
  The goroutine started for an accepted metric: \<^verbatim>\<open>RPUSH\<close>, \<^verbatim>\<open>LTRIM\<close> to the last
  \<^verbatim>\<open>windowSize\<close> entries, \<^verbatim>\<open>LRANGE\<close> of the whole list, then the statistics pass. An error
  of \<^verbatim>\<open>RPUSH\<close> or \<^verbatim>\<open>LRANGE\<close> is logged and ends the goroutine; an error of \<^verbatim>\<open>LTRIM\<close> is
  logged and the goroutine goes on.
\<close>

definition analyzeGoroutine :: "'f float_ops \<Rightarrow> redis_faults \<Rightarrow> 'f Metric \<Rightarrow> 'f AppState \<Rightarrow> 'f AppState" where
  "analyzeGoroutine fl flt m s =
     (case redis_RPush (rpush_err flt) (metrics (redisClient s)) m of
        Inl err \<Rightarrow> s\<lparr>log_output := log_output s @ [LogRPushError]\<rparr>
      | Inr pushed \<Rightarrow>
          (let s1 = s\<lparr>redisClient := (redisClient s)\<lparr>metrics := pushed\<rparr>\<rparr>;
               s2 = (case redis_LTrim (ltrim_err flt) (metrics (redisClient s1)) (- windowSize s1) (- 1) of
                       Inl err \<Rightarrow> s1\<lparr>log_output := log_output s1 @ [LogLTrimError]\<rparr>
                     | Inr trimmed \<Rightarrow> s1\<lparr>redisClient := (redisClient s1)\<lparr>metrics := trimmed\<rparr>\<rparr>)
           in (case redis_LRange (lrange_err flt) (metrics (redisClient s2)) 0 (- 1) of
                 Inl err \<Rightarrow> s2\<lparr>log_output := log_output s2 @ [LogLRangeError]\<rparr>
               | Inr window \<Rightarrow> evaluateWindow fl m window s2)))"

text \<open>
  \<^verbatim>\<open>handleAnalyze\<close> up to its response: the new state, the response, and the metric handed
  to the goroutine when one is started.
\<close>

definition handleAnalyze :: "redis_faults \<Rightarrow> 'f request \<Rightarrow> 'f AppState \<Rightarrow> 'f AppState \<times> response \<times> 'f Metric option" where
  "handleAnalyze flt r s =
     (if Method r \<noteq> ''POST'' then
        (s, \<lparr>StatusCode = 405, ResponseText = ''Method not allowed''\<rparr>, None)
      else
        (case redis_Incr (incr_err flt) (request_count (redisClient s)) of
           Inl err \<Rightarrow>
             (s\<lparr>log_output := log_output s @ [LogIncrError]\<rparr>,
              \<lparr>StatusCode = 500, ResponseText = ''Error incrementing counter''\<rparr>, None)
         | Inr newCount \<Rightarrow>
             (let s1 = s\<lparr>redisClient := (redisClient s)\<lparr>request_count := newCount\<rparr>,
                         log_output := log_output s @ [LogIncremented newCount]\<rparr>;
                  s2 = s1\<lparr>requestCounter := requestCounter s1 + 1\<rparr>
              in (case Body r of
                    None \<Rightarrow> (s2, \<lparr>StatusCode = 400, ResponseText = ''Invalid JSON''\<rparr>, None)
                  | Some metric \<Rightarrow>
                      (s2\<lparr>cpuGauge := CPU metric, rpsGauge := RPS metric\<rparr>,
                       \<lparr>StatusCode = 202, ResponseText = ''Metric accepted for processing''\<rparr>,
                       Some metric)))))"

text \<open>A run of goroutines one after the other, each with the faults it meets.\<close>

fun runGoroutines :: "'f float_ops \<Rightarrow> (redis_faults \<times> 'f Metric) list \<Rightarrow> 'f AppState \<Rightarrow> 'f AppState" where
  "runGoroutines fl [] s = s"
| "runGoroutines fl ((flt, m) # jobs) s = runGoroutines fl jobs (analyzeGoroutine fl flt m s)"

section \<open>The specification's words\<close>

text \<open>
  The arithmetic mean, and the sample standard deviation with the denominator \<open>n - 1\<close>,
  over the reals, with the conventions for short sequences.
\<close>

definition arithmetic_mean :: "real list \<Rightarrow> real" where
  "arithmetic_mean xs = (if xs = [] then 0 else sum_list xs / real (length xs))"

definition sample_stddev :: "real list \<Rightarrow> real" where
  "sample_stddev xs =
     (if length xs \<le> 1 then 0
      else sqrt ((\<Sum>x\<leftarrow>xs. (x - arithmetic_mean xs)\<^sup>2) / real (length xs - 1)))"

text \<open>
  The same two formulas in an arithmetic \<open>fl\<close> that rounds. The sum of a sequence is the
  last of its partial sums, \<open>S\<^sub>0 = 0.0\<close> and \<open>S\<^sub>k\<^sub>+\<^sub>1 = S\<^sub>k + x\<^sub>k\<^sub>+\<^sub>1\<close>; the mean is the sum divided
  by the number of values; the sample standard deviation about a mean is the square root
  of the sum of the squared differences from that mean, divided by one less than the
  number of values.
\<close>

primrec partial_sum :: "'f float_ops \<Rightarrow> 'f list \<Rightarrow> nat \<Rightarrow> 'f" where
  "partial_sum fl xs 0 = f_zero fl"
| "partial_sum fl xs (Suc k) = f_add fl (partial_sum fl xs k) (xs ! k)"

definition float_sum :: "'f float_ops \<Rightarrow> 'f list \<Rightarrow> 'f" where
  "float_sum fl xs = partial_sum fl xs (length xs)"

definition float_mean :: "'f float_ops \<Rightarrow> 'f list \<Rightarrow> 'f" where
  "float_mean fl xs =
     (if xs = [] then f_zero fl else f_div fl (float_sum fl xs) (f_of_nat fl (length xs)))"

definition float_sample_stddev :: "'f float_ops \<Rightarrow> 'f list \<Rightarrow> 'f \<Rightarrow> 'f" where
  "float_sample_stddev fl xs mean =
     (if length xs \<le> 1 then f_zero fl
      else f_sqrt fl
             (f_div fl (float_sum fl (map (\<lambda>x. f_pow2 fl (f_sub fl x mean)) xs))
                (f_of_nat fl (length xs - 1))))"

text \<open>
  The z-score test as the specification words it: at least two values, a sample standard
  deviation that is not zero, and a z-score beyond 2.0 in magnitude.
\<close>

definition zscore_test :: "'f float_ops \<Rightarrow> 'f \<Rightarrow> 'f list \<Rightarrow> bool" where
  "zscore_test fl currentValue windowValues =
     (let mean = float_mean fl windowValues;
          stddev = float_sample_stddev fl windowValues mean
      in 2 \<le> length windowValues \<and> f_ne fl stddev (f_zero fl) \<and>
         f_gt fl (f_abs fl (f_div fl (f_sub fl currentValue mean) stddev)) (f_two fl))"

section \<open>Concrete inputs\<close>

definition no_faults :: redis_faults where
  "no_faults = \<lparr>incr_err = False, rpush_err = False, ltrim_err = False, lrange_err = False\<rparr>"



definition incr_fault :: redis_faults where
  "incr_fault = \<lparr>incr_err = True, rpush_err = False, ltrim_err = False, lrange_err = False\<rparr>"



text \<open>A metric with the given RPS, at time 0 and with CPU 0.\<close>

definition rps_metric :: "rat \<Rightarrow> f64 Metric" where
  "rps_metric x = \<lparr>Timestamp = 0, CPU = Fin 0 0, RPS = f64_lit x\<rparr>"

text \<open>The state \<^verbatim>\<open>main\<close> starts from, over a store that holds the given window.\<close>

definition state_with :: "f64 Metric list \<Rightarrow> f64 AppState" where
  "state_with w = main_appState f64_ops Map.empty \<lparr>request_count = 0, metrics = w\<rparr>"

text \<open>The windows of the examples.\<close>

definition window_60 :: "f64 Metric list" where
  "window_60 = map rps_metric [10, 12, 9, 11, 10, 60]"

definition window_11 :: "f64 Metric list" where
  "window_11 = map rps_metric [10, 12, 9, 11, 10, 11]"



definition history_tenths :: "f64 Metric list" where
  "history_tenths = map rps_metric [1 / 10, 1 / 10]"

text \<open>The log lines that report an anomaly.\<close>

definition is_anomaly_line :: "'f log_line \<Rightarrow> bool" where
  "is_anomaly_line l = (case l of LogAnomaly c z mu sd \<Rightarrow> True | _ \<Rightarrow> False)"

section \<open>The float64 model: auxiliary facts\<close>

lemma p2_eq: "p2 n = 2 ^ nat n"
proof (induction n rule: p2.induct)
  case (1 n)
  show ?case
  proof (cases "n \<le> 0")
    case True
    then show ?thesis by (subst p2.simps) simp
  next
    case False
    have ih: "p2 (n div 2) = 2 ^ nat (n div 2)" using 1 False by simp
    show ?thesis
    proof (cases "even n")
      case True
      then have "nat n = nat (n div 2) + nat (n div 2)" using False by (auto elim!: evenE)
      then have "(2::int) ^ nat n = 2 ^ nat (n div 2) * 2 ^ nat (n div 2)"
        by (metis power_add)
      with True False ih show ?thesis by (subst p2.simps) (simp add: Let_def)
    next
      case odd: False
      then have "nat n = Suc (nat (n div 2) + nat (n div 2))" using False by (auto elim!: oddE)
      then have "(2::int) ^ nat n = 2 * (2 ^ nat (n div 2) * 2 ^ nat (n div 2))"
        by (metis power_Suc power_add)
      with odd False ih show ?thesis by (subst p2.simps) (simp add: Let_def)
    qed
  qed
qed

lemma p2_pos: "0 < p2 n"
  by (simp add: p2_eq)

lemma bitlen_bounds: "0 < n \<Longrightarrow> 2 ^ (bitlen n - 1) \<le> n \<and> n < 2 ^ bitlen n"
proof (induction n rule: bitlen.induct)
  case (1 n)
  show ?case
  proof (cases "n = 1")
    case True
    then show ?thesis by (subst (1 2) bitlen.simps) (simp add: bitlen.simps [of 0])
  next
    case False
    with 1 have h: "0 < n div 2" by auto
    have ih: "2 ^ (bitlen (n div 2) - 1) \<le> n div 2 \<and> n div 2 < 2 ^ bitlen (n div 2)"
      using 1 h by simp
    have pos: "0 < bitlen (n div 2)" using h by (subst bitlen.simps) simp
    have b: "bitlen n = Suc (bitlen (n div 2))" using 1(2) by (subst bitlen.simps) simp
    have "2 ^ (bitlen n - 1) = 2 * (2::int) ^ (bitlen (n div 2) - 1)"
      using pos b by (cases "bitlen (n div 2)") auto
    moreover have "2 * (n div 2) \<le> n" by simp
    moreover have "n < 2 * (n div 2) + 2" by presburger
    ultimately show ?thesis using ih b by auto
  qed
qed

lemma isqrt_bounds: "0 \<le> n \<Longrightarrow> 0 \<le> isqrt n \<and> isqrt n * isqrt n \<le> n \<and> n < (isqrt n + 1) * (isqrt n + 1)"
proof (induction n rule: isqrt.induct)
  case (1 n)
  show ?case
  proof (cases "n < 1")
    case True
    with 1 show ?thesis by (subst (1 2 3 4 5) isqrt.simps) simp
  next
    case False
    define r where "r = isqrt (n div 4)"
    have ih: "0 \<le> r \<and> r * r \<le> n div 4 \<and> n div 4 < (r + 1) * (r + 1)"
      using 1 False unfolding r_def by simp
    have e: "isqrt n = (if (2 * r + 1) * (2 * r + 1) \<le> n then 2 * r + 1 else 2 * r)"
      using False unfolding r_def by (subst isqrt.simps) (simp add: Let_def)
    have lo: "4 * (r * r) \<le> n" using ih by linarith
    have "n div 4 + 1 \<le> (r + 1) * (r + 1)" using ih by linarith
    then have "n < 4 * ((r + 1) * (r + 1))" by linarith
    then have hi: "n < (2 * r + 2) * (2 * r + 2)" by (simp add: algebra_simps)
    show ?thesis
    proof (cases "(2 * r + 1) * (2 * r + 1) \<le> n")
      case True
      with e have "isqrt n = 2 * r + 1" by simp
      with True hi ih show ?thesis by (simp add: algebra_simps)
    next
      case f: False
      with e have "isqrt n = 2 * r" by simp
      with f lo ih show ?thesis by (simp add: algebra_simps)
    qed
  qed
qed

lemma strip_nonzero: "m \<noteq> 0 \<Longrightarrow> fst (strip m e) \<noteq> 0"
proof (induction m e rule: strip.induct)
  case (1 m e)
  show ?case
  proof (cases "even m")
    case True
    with 1 have "m div 2 \<noteq> 0" by (auto elim!: evenE)
    with 1 True show ?thesis by (subst strip.simps) simp
  next
    case False
    with 1 show ?thesis by (subst strip.simps) simp
  qed
qed

lemma rnd_frac_zero [simp]: "rnd_frac 0 b e = Fin 0 0"
  by (simp add: rnd_frac_def)

lemma bitlen_1: "bitlen 1 = 1"
  by (simp add: bitlen.simps [of 1] bitlen.simps [of 0])

lemma bitlen_pos: "0 < n \<Longrightarrow> 0 < bitlen n"
  by (subst bitlen.simps) simp

lemma floor_log2_int: "0 < n \<Longrightarrow> floor_log2 n 1 = int (bitlen n) - 1"
  using bitlen_bounds [of n] bitlen_pos [of n]
  by (simp add: floor_log2_def bitlen_1 p2_eq Let_def nat_diff_distrib')

lemma round_div_ge: "0 < D \<Longrightarrow> N div D \<le> round_div N D"
  by (simp add: round_div_def Let_def)

lemma fin_nonzero: "m \<noteq> 0 \<Longrightarrow> \<exists>m' e'. fin m e = Fin m' e' \<and> m' \<noteq> 0"
  using strip_nonzero [of m e] by (cases "strip m e") (simp add: fin_def)

lemma fin_zero [simp]: "fin 0 e = Fin 0 0"
  by (simp add: fin_def strip.simps [of 0])

lemma f64_of_nat_nonzero:
  assumes "0 < k"
  shows "f64_of_nat k = PInf \<or> (\<exists>m e. f64_of_nat k = Fin m e \<and> m \<noteq> 0)"
proof -
  define n where "n = int k"
  have npos: "0 < n" using assms by (simp add: n_def)
  define lg where "lg = int (bitlen n) - 1"
  have lg0: "0 \<le> lg" using bitlen_pos [OF npos] by (simp add: lg_def)
  have lgn: "2 ^ nat lg \<le> n"
    using bitlen_bounds [OF npos] lg0 by (simp add: lg_def nat_diff_distrib')
  define q where "q = (if 0 \<le> 52 - lg then round_div (n * p2 (52 - lg)) 1
                        else round_div n (1 * p2 (- (52 - lg))))"
  have qpos: "0 < q"
  proof (cases "0 \<le> 52 - lg")
    case True
    have "0 < n * p2 (52 - lg)" using npos p2_pos [of "52 - lg"] by simp
    moreover have "(n * p2 (52 - lg)) div 1 \<le> round_div (n * p2 (52 - lg)) 1"
      by (rule round_div_ge) simp
    ultimately show ?thesis using True by (simp add: q_def)
  next
    case False
    define D where "D = p2 (- (52 - lg))"
    have Dpos: "0 < D" by (simp add: D_def p2_pos)
    have a: "(2::int) ^ nat (- (52 - lg)) \<le> 2 ^ nat lg" by (rule power_increasing) auto
    have "D \<le> n" unfolding D_def p2_eq using a lgn by (rule order_trans)
    then have "0 < n div D" using Dpos by (simp add: pos_imp_zdiv_pos_iff)
    moreover have "n div D \<le> round_div n D" using Dpos by (rule round_div_ge)
    ultimately show ?thesis using False by (simp add: q_def D_def)
  qed
  have shape: "f64_of_nat k =
      (if 1024 < int (bitlen q) + (lg - 52) then PInf else fin q (lg - 52))"
    using npos lg0
    by (simp add: f64_of_nat_def rnd_frac_def ulp_exp_def round_quot_def n_def [symmetric]
        floor_log2_int lg_def [symmetric] q_def Let_def)
  show ?thesis
    using fin_nonzero [of q "lg - 52"] qpos by (auto simp: shape)
qed

lemma f64_sub_self [simp]: "f64_sub (Fin m e) (Fin m e) = Fin 0 0"
  by (simp add: f64_sub_def)

lemma f64_pow2_zero [simp]: "f64_pow2 (Fin 0 e) = Fin 0 0"
  by simp

lemma f64_add_zero [simp]: "f64_add (Fin 0 0) (Fin 0 0) = Fin 0 0"
  by simp

lemma f64_div_zero_of_nat: "0 < k \<Longrightarrow> f64_div (Fin 0 0) (f64_of_nat k) = Fin 0 0"
  using f64_of_nat_nonzero [of k] by auto

lemma f64_ops_simps [simp]:
  "f_zero f64_ops = Fin 0 0" "f_two f64_ops = Fin 1 1" "f_add f64_ops = f64_add"
  "f_sub f64_ops = f64_sub" "f_div f64_ops = f64_div" "f_pow2 f64_ops = f64_pow2"
  "f_sqrt f64_ops = f64_sqrt" "f_abs f64_ops = f64_abs" "f_of_nat f64_ops = f64_of_nat"
  "f_gt f64_ops = f64_gt" "f_ne f64_ops = f64_ne"
  by (simp_all add: f64_ops_def)

lemma foldl_sq_dev_zero:
  "\<forall>x \<in> set xs. x = Fin m e \<Longrightarrow>
   foldl (\<lambda>acc v. f64_add acc (f64_pow2 (f64_sub v (Fin m e)))) (Fin 0 0) xs = Fin 0 0"
  by (induction xs) auto

lemma stddev_f64_constant:
  assumes "\<forall>x \<in> set xs. x = Fin m e"
  shows "calculateStandardDeviation f64_ops xs (Fin m e) = Fin 0 0"
proof (cases "length xs \<le> 1")
  case True
  then show ?thesis by (simp add: calculateStandardDeviation_def)
next
  case False
  then have "0 < length xs - 1" by simp
  then show ?thesis
    using False foldl_sq_dev_zero [OF assms]
    by (simp add: calculateStandardDeviation_def f64_div_zero_of_nat)
qed

section \<open>The float64 model: rounding to nearest\<close>

lemma p2_powi: "0 \<le> k \<Longrightarrow> real_of_int (p2 k) = 2 powi k"
  by (simp add: p2_eq power_int_def)

lemma bitlen_powi:
  assumes "0 < n"
  shows "2 powi (int (bitlen n) - 1) \<le> real_of_int n" "real_of_int n < 2 powi (int (bitlen n))"
proof -
  have b: "0 < bitlen n" using assms by (rule bitlen_pos)
  have i: "2 ^ (bitlen n - 1) \<le> n" "n < 2 ^ bitlen n" using bitlen_bounds [OF assms] by auto
  have lo: "real_of_int (2 ^ (bitlen n - 1)) \<le> real_of_int n"
    using i(1) by (simp only: of_int_le_iff)
  have hi: "real_of_int n < real_of_int (2 ^ bitlen n)"
    using i(2) by (simp only: of_int_less_iff)
  have e: "int (bitlen n) - 1 = int (bitlen n - 1)" using b by simp
  show "2 powi (int (bitlen n) - 1) \<le> real_of_int n"
    unfolding e using lo by simp
  show "real_of_int n < 2 powi (int (bitlen n))"
    using hi by simp
qed

lemma floor_log2_test:
  assumes "0 < b"
  shows "(if 0 \<le> k then b * p2 k \<le> n else b \<le> n * p2 (- k)) \<longleftrightarrow>
         2 powi k \<le> real_of_int n / real_of_int b"
proof (cases "0 \<le> k")
  case True
  have "b * p2 k \<le> n \<longleftrightarrow> real_of_int (b * p2 k) \<le> real_of_int n" by (simp only: of_int_le_iff)
  also have "\<dots> \<longleftrightarrow> real_of_int b * 2 powi k \<le> real_of_int n" using True by (simp add: p2_powi)
  also have "\<dots> \<longleftrightarrow> 2 powi k \<le> real_of_int n / real_of_int b"
    using assms by (simp add: field_simps)
  finally show ?thesis using True by simp
next
  case False
  then have k: "0 \<le> - k" by simp
  have inv: "(2::real) powi k = 1 / 2 powi (- k)"
    using power_int_minus [of "2::real" "- k"] by (simp add: inverse_eq_divide)
  have pos: "(0::real) < 2 powi (- k)" by simp
  have "b \<le> n * p2 (- k) \<longleftrightarrow> real_of_int b \<le> real_of_int (n * p2 (- k))" by (simp only: of_int_le_iff)
  also have "\<dots> \<longleftrightarrow> real_of_int b \<le> real_of_int n * 2 powi (- k)" using k by (simp add: p2_powi)
  also have "\<dots> \<longleftrightarrow> 2 powi k \<le> real_of_int n / real_of_int b"
    unfolding inv using assms pos by (simp add: field_simps)
  finally show ?thesis using False by simp
qed

lemma floor_log2_bounds:
  assumes "0 < n" "0 < b"
  shows "2 powi (floor_log2 n b) \<le> real_of_int n / real_of_int b"
    and "real_of_int n / real_of_int b < 2 powi (floor_log2 n b + 1)"
proof -
  define k where "k = int (bitlen n) - int (bitlen b)"
  define x where "x = real_of_int n / real_of_int b"
  have bp: "0 < real_of_int b" using assms by simp
  have lo: "(2::real) powi (k - 1) < x"
  proof -
    have e: "k - 1 = (int (bitlen n) - 1) - int (bitlen b)" by (simp add: k_def)
    have "(2::real) powi (k - 1) = 2 powi (int (bitlen n) - 1) / 2 powi (int (bitlen b))"
      unfolding e by (rule power_int_diff) simp
    also have "\<dots> < real_of_int n / real_of_int b"
      using bitlen_powi(1) [OF assms(1)] bitlen_powi(2) [OF assms(2)] bp
      by (intro frac_less2) simp_all
    finally show ?thesis by (simp add: x_def)
  qed
  have hi: "x < (2::real) powi (k + 1)"
  proof -
    have e: "k + 1 = int (bitlen n) - (int (bitlen b) - 1)" by (simp add: k_def)
    have "real_of_int n / real_of_int b < 2 powi (int (bitlen n)) / 2 powi (int (bitlen b) - 1)"
      using bitlen_powi(2) [OF assms(1)] bitlen_powi(1) [OF assms(2)] assms(1)
      by (intro frac_less) simp_all
    also have "\<dots> = 2 powi (k + 1)"
      unfolding e by (rule power_int_diff [symmetric]) simp
    finally show ?thesis by (simp add: x_def)
  qed
  have fl: "floor_log2 n b = (if (2::real) powi k \<le> x then k else k - 1)"
    unfolding floor_log2_def Let_def k_def [symmetric] floor_log2_test [OF assms(2)] x_def ..
  show "2 powi (floor_log2 n b) \<le> real_of_int n / real_of_int b"
    using lo by (auto simp: fl x_def)
  show "real_of_int n / real_of_int b < 2 powi (floor_log2 n b + 1)"
    using hi by (auto simp: fl x_def not_le)
qed

lemma round_div_cases:
  fixes N D :: int
  assumes "0 < D"
  defines "f \<equiv> real_of_int N / real_of_int D - real_of_int (N div D)"
  shows "0 \<le> f" "f < 1"
    "round_div N D = (if f < 1 / 2 then N div D else if 1 / 2 < f then N div D + 1
                      else if even (N div D) then N div D else N div D + 1)"
proof -
  have Dr: "0 < real_of_int D" using assms by simp
  have N: "real_of_int N = real_of_int (N div D) * real_of_int D + real_of_int (N mod D)"
    by (metis div_mult_mod_eq of_int_add of_int_mult)
  have f: "f = real_of_int (N mod D) / real_of_int D"
    unfolding f_def using Dr by (subst N) (simp add: field_simps)
  have r: "0 \<le> N mod D" "N mod D < D" using assms by simp_all
  show "0 \<le> f" using r Dr by (simp add: f)
  show "f < 1" using r Dr by (simp add: f)
  have a: "2 * (N mod D) < D \<longleftrightarrow> f < 1 / 2"
  proof -
    have "2 * (N mod D) < D \<longleftrightarrow> real_of_int (2 * (N mod D)) < real_of_int D"
      by (simp only: of_int_less_iff)
    also have "\<dots> \<longleftrightarrow> f < 1 / 2" using Dr by (simp add: f field_simps)
    finally show ?thesis .
  qed
  have b: "D < 2 * (N mod D) \<longleftrightarrow> 1 / 2 < f"
  proof -
    have "D < 2 * (N mod D) \<longleftrightarrow> real_of_int D < real_of_int (2 * (N mod D))"
      by (simp only: of_int_less_iff)
    also have "\<dots> \<longleftrightarrow> 1 / 2 < f" using Dr by (simp add: f field_simps)
    finally show ?thesis .
  qed
  show "round_div N D = (if f < 1 / 2 then N div D else if 1 / 2 < f then N div D + 1
                      else if even (N div D) then N div D else N div D + 1)"
    by (simp add: round_div_def Let_def a b)
qed

lemma round_div_nearest:
  assumes "0 < D"
  shows "\<bar>real_of_int (round_div N D) - real_of_int N / real_of_int D\<bar>
           \<le> \<bar>real_of_int z - real_of_int N / real_of_int D\<bar>"
proof -
  define q where "q = N div D"
  define y where "y = real_of_int N / real_of_int D"
  define f where "f = y - real_of_int q"
  note c = round_div_cases [OF assms, of N, folded q_def y_def, folded f_def]
  have y: "y = real_of_int q + f" by (simp add: f_def)
  consider "z \<le> q" | "q + 1 \<le> z" by linarith
  then show ?thesis
  proof cases
    case 1
    then have "real_of_int z \<le> real_of_int q" by (simp only: of_int_le_iff)
    then show ?thesis
      unfolding y_def [symmetric] using c y by (auto split: if_splits)
  next
    case 2
    then have "real_of_int (q + 1) \<le> real_of_int z" by (simp only: of_int_le_iff)
    then show ?thesis
      unfolding y_def [symmetric] using c y by (auto split: if_splits)
  qed
qed

lemma round_div_half:
  assumes "0 < D"
  shows "\<bar>real_of_int (round_div N D) - real_of_int N / real_of_int D\<bar> \<le> 1 / 2"
proof -
  define q where "q = N div D"
  define y where "y = real_of_int N / real_of_int D"
  define f where "f = y - real_of_int q"
  note c = round_div_cases [OF assms, of N, folded q_def y_def, folded f_def]
  have y: "y = real_of_int q + f" by (simp add: f_def)
  show ?thesis
    unfolding y_def [symmetric] using c y by (auto split: if_splits)
qed

lemma round_div_tie_even:
  assumes "0 < D" and "2 * (N mod D) = D"
  shows "even (round_div N D)"
  using assms by (simp add: round_div_def Let_def)

lemma strip_value:
  "strip m e = (m', e') \<Longrightarrow> real_of_int m' * 2 powi e' = real_of_int m * 2 powi e"
proof (induction m e rule: strip.induct)
  case (1 m e)
  show ?case
  proof (cases "m = 0")
    case True
    with 1(2) show ?thesis by (simp add: strip.simps [of 0])
  next
    case nz: False
    show ?thesis
    proof (cases "even m")
      case True
      then obtain h where h: "m = 2 * h" by (auto elim: evenE)
      have s: "strip (m div 2) (e + 1) = (m', e')"
        using 1(2) nz True by (subst (asm) strip.simps) simp
      have "real_of_int m' * 2 powi e' = real_of_int (m div 2) * 2 powi (e + 1)"
        using 1(1) [OF nz True s] .
      also have "\<dots> = real_of_int m * 2 powi e"
        by (simp add: h power_int_add)
      finally show ?thesis .
    next
      case False
      with 1(2) nz show ?thesis by (subst (asm) strip.simps) simp
    qed
  qed
qed

lemma strip_odd: "strip m e = (m', e') \<Longrightarrow> m' = 0 \<and> e' = 0 \<or> odd m'"
proof (induction m e rule: strip.induct)
  case (1 m e)
  show ?case
  proof (cases "m = 0")
    case True
    with 1(2) show ?thesis by (simp add: strip.simps [of 0])
  next
    case nz: False
    show ?thesis
    proof (cases "even m")
      case True
      have s: "strip (m div 2) (e + 1) = (m', e')"
        using 1(2) nz True by (subst (asm) strip.simps) simp
      show ?thesis using 1(1) [OF nz True s] .
    next
      case False
      with 1(2) nz show ?thesis by (subst (asm) strip.simps) simp
    qed
  qed
qed

text \<open>the positive core\<close>

lemma round_quot_ratio:
  assumes "0 < n" "0 < b"
  shows "\<exists>N D. 0 < D \<and> round_quot n b e = round_div N D \<and>
     real_of_int N / real_of_int D =
       real_of_int n / real_of_int b * 2 powi e * 2 powi (- ulp_exp n b e)"
proof -
  define E where "E = ulp_exp n b e"
  define s where "s = e - E"
  have x: "real_of_int n / real_of_int b * 2 powi e * 2 powi (- E) =
           real_of_int n / real_of_int b * 2 powi s"
    by (simp add: s_def power_int_diff power_int_minus field_simps)
  show ?thesis
  proof (cases "0 \<le> s")
    case True
    have "round_quot n b e = round_div (n * p2 s) b"
      using True by (simp add: round_quot_def E_def s_def Let_def)
    moreover have "real_of_int (n * p2 s) / real_of_int b =
        real_of_int n / real_of_int b * 2 powi s"
      using True by (simp add: p2_powi)
    ultimately show ?thesis using assms(2) x unfolding E_def by metis
  next
    case False
    then have ns: "0 \<le> - s" by simp
    have "round_quot n b e = round_div n (b * p2 (- s))"
      using False by (simp add: round_quot_def E_def s_def Let_def)
    moreover have "real_of_int n / real_of_int (b * p2 (- s)) =
        real_of_int n / real_of_int b * 2 powi s"
      using ns by (simp add: p2_powi power_int_minus field_simps)
    moreover have "0 < b * p2 (- s)" using assms(2) p2_pos [of "- s"] by simp
    ultimately show ?thesis using x unfolding E_def by metis
  qed
qed

lemma round_quot_nearest:
  assumes "0 < n" "0 < b"
  shows "\<bar>real_of_int (round_quot n b e) -
            real_of_int n / real_of_int b * 2 powi e * 2 powi (- ulp_exp n b e)\<bar>
         \<le> \<bar>real_of_int z -
            real_of_int n / real_of_int b * 2 powi e * 2 powi (- ulp_exp n b e)\<bar>"
proof -
  obtain N D where "0 < D" "round_quot n b e = round_div N D"
    "real_of_int N / real_of_int D =
       real_of_int n / real_of_int b * 2 powi e * 2 powi (- ulp_exp n b e)"
    using round_quot_ratio [OF assms] by blast
  then show ?thesis using round_div_nearest [of D N z] by simp
qed

lemma round_quot_tie_even:
  assumes "0 < n" "0 < b"
    and "real_of_int n / real_of_int b * 2 powi e * 2 powi (- ulp_exp n b e) = real_of_int z + 1 / 2"
  shows "even (round_quot n b e)"
proof -
  obtain N D where D: "0 < D" and r: "round_quot n b e = round_div N D"
    and y: "real_of_int N / real_of_int D =
       real_of_int n / real_of_int b * 2 powi e * 2 powi (- ulp_exp n b e)"
    using round_quot_ratio [OF assms(1,2)] by blast
  note c = round_div_cases [OF D, of N]
  have f: "real_of_int N / real_of_int D - real_of_int (N div D) = 1 / 2"
  proof -
    have "real_of_int N / real_of_int D = real_of_int z + 1 / 2" using y assms(3) by simp
    moreover have "N div D = z"
    proof -
      have "real_of_int z \<le> real_of_int N / real_of_int D" 
        "real_of_int N / real_of_int D < real_of_int z + 1"
        using calculation by simp_all
      then have "\<lfloor>real_of_int N / real_of_int D\<rfloor> = z" by linarith
      then show ?thesis by (simp add: floor_divide_of_int_eq)
    qed
    ultimately show ?thesis by simp
  qed
  show ?thesis unfolding r using c(3) f by (auto split: if_splits)
qed

lemma ulp_exp_ge: "- 1074 \<le> ulp_exp n b e"
  by (simp add: ulp_exp_def)

lemma scaled_bounds:
  fixes n b e :: int
  assumes "0 < n" "0 < b"
  defines "y \<equiv> real_of_int n / real_of_int b * 2 powi e * 2 powi (- ulp_exp n b e)"
  shows "0 < y" "y < 2 ^ 53" "- 1074 < ulp_exp n b e \<Longrightarrow> 2 ^ 52 \<le> y"
proof -
  define lg where "lg = floor_log2 n b"
  define E where "E = ulp_exp n b e"
  define r where "r = real_of_int n / real_of_int b"
  have r: "2 powi lg \<le> r" "r < 2 powi (lg + 1)"
    using floor_log2_bounds [OF assms(1,2)] by (simp_all add: lg_def r_def)
  have rpos: "0 < r" using assms by (simp add: r_def)
  have y: "y = r * 2 powi (e - E)"
    by (simp add: y_def r_def E_def power_int_diff power_int_minus field_simps)
  show "0 < y" using rpos by (simp add: y)
  have E: "lg + e - 52 \<le> E" by (simp add: E_def ulp_exp_def lg_def)
  have "y < 2 powi (lg + 1) * 2 powi (e - E)"
    unfolding y using r(2) by (simp add: mult_strict_right_mono)
  also have "\<dots> = 2 powi (lg + 1 + (e - E))" by (simp add: power_int_add)
  also have "\<dots> \<le> 2 powi 53" using E by (intro power_int_increasing) auto
  finally show "y < 2 ^ 53" by simp
  show "2 ^ 52 \<le> y" if "- 1074 < ulp_exp n b e"
  proof -
    have EE: "E = lg + e - 52" using that by (simp add: E_def ulp_exp_def lg_def max_def split: if_splits)
    have "(2::real) powi 52 = 2 powi lg * 2 powi (e - E)"
      unfolding EE by (simp flip: power_int_add)
    also have "\<dots> \<le> y" unfolding y using r(1) by (simp add: mult_right_mono)
    finally show ?thesis by simp
  qed
qed

lemma round_quot_bounds:
  assumes "0 < n" "0 < b"
  shows "0 \<le> round_quot n b e" "round_quot n b e \<le> 2 ^ 53"
    "- 1074 < ulp_exp n b e \<Longrightarrow> 2 ^ 52 \<le> round_quot n b e"
proof -
  define y where "y = real_of_int n / real_of_int b * 2 powi e * 2 powi (- ulp_exp n b e)"
  define q where "q = round_quot n b e"
  note sb = scaled_bounds [OF assms, of e, folded y_def]
  have near: "\<bar>real_of_int q - y\<bar> \<le> \<bar>real_of_int z - y\<bar>" for z
    unfolding q_def y_def by (rule round_quot_nearest [OF assms])
  show "0 \<le> round_quot n b e"
  proof (rule ccontr)
    assume "\<not> 0 \<le> round_quot n b e"
    then have "real_of_int q < 0" by (simp add: q_def)
    then show False using near [of 0] sb(1) by simp
  qed
  show "round_quot n b e \<le> 2 ^ 53"
  proof (rule ccontr)
    assume "\<not> round_quot n b e \<le> 2 ^ 53"
    then have "2 ^ 53 < q" by (simp add: q_def)
    then have "real_of_int (2 ^ 53) < real_of_int q" by (simp only: of_int_less_iff)
    then show False using near [of "2 ^ 53"] sb(2) by simp
  qed
  show "2 ^ 52 \<le> round_quot n b e" if "- 1074 < ulp_exp n b e"
  proof (rule ccontr)
    assume "\<not> 2 ^ 52 \<le> round_quot n b e"
    then have "q < 2 ^ 52" by (simp add: q_def)
    then have "real_of_int q < real_of_int (2 ^ 52)" by (simp only: of_int_less_iff)
    then show False using near [of "2 ^ 52"] sb(3) [OF that] by simp
  qed
qed

lemma fin_value:
  "fin m e = Fin m' e' \<Longrightarrow> real_of_int m' * 2 powi e' = real_of_int m * 2 powi e"
  by (cases "strip m e") (auto simp: fin_def dest: strip_value)

lemma fin_is_Fin: "\<exists>m' e'. fin m e = Fin m' e'"
  by (cases "strip m e") (simp add: fin_def)

lemma binary64_minus: "binary64 y \<Longrightarrow> binary64 (- y)"
proof -
  assume "binary64 y"
  then obtain q E where "\<bar>q\<bar> < 2 ^ 53" "- 1074 \<le> E" "E \<le> 971" "y = real_of_int q * 2 powi E"
    unfolding binary64_def by blast
  then have "\<bar>- q\<bar> < 2 ^ 53 \<and> - 1074 \<le> E \<and> E \<le> 971 \<and> - y = real_of_int (- q) * 2 powi E"
    by simp
  then show ?thesis unfolding binary64_def by blast
qed

lemma bitlen_ge: "2 ^ k \<le> n \<Longrightarrow> k < bitlen n"
proof -
  assume a: "2 ^ k \<le> n"
  moreover have "(0::int) < 2 ^ k" by simp
  ultimately have "0 < n" by linarith
  then have "n < 2 ^ bitlen n" using bitlen_bounds by blast
  with a have "(2::int) ^ k < 2 ^ bitlen n" by linarith
  then show ?thesis by (simp add: power_strict_increasing_iff)
qed

text \<open>Positive numbers: the rounded magnitude is a binary64 value nearest to the exact one.\<close>

lemma round_pos:
  fixes n b e :: int
  assumes "0 < n" "0 < b"
    and fit: "int (bitlen (round_quot n b e)) + ulp_exp n b e \<le> 1024"
  defines "x \<equiv> real_of_int n / real_of_int b * 2 powi e"
    and "v \<equiv> real_of_int (round_quot n b e) * 2 powi (ulp_exp n b e)"
  shows "binary64 v" and "binary64 z \<Longrightarrow> \<bar>v - x\<bar> \<le> \<bar>z - x\<bar>"
proof -
  define E where "E = ulp_exp n b e"
  define q where "q = round_quot n b e"
  define W where "W = (2::real) powi E"
  define y where "y = x * 2 powi (- E)"
  have W: "0 < W" by (simp add: W_def)
  have xy: "x = y * W" by (simp add: y_def W_def power_int_minus field_simps)
  have v: "v = real_of_int q * W" by (simp add: v_def q_def W_def E_def)
  have y': "y = real_of_int n / real_of_int b * 2 powi e * 2 powi (- ulp_exp n b e)"
    by (simp add: y_def x_def E_def)
  note qb = round_quot_bounds [OF assms(1,2), of e, folded q_def E_def]
  note sb = scaled_bounds [OF assms(1,2), of e, folded y' E_def]
  have near: "\<bar>real_of_int q - y\<bar> \<le> \<bar>real_of_int t - y\<bar>" for t
    unfolding q_def y' by (rule round_quot_nearest [OF assms(1,2)])
  have Ege: "- 1074 \<le> E" by (simp add: E_def ulp_exp_ge)
  have fit': "int (bitlen q) + E \<le> 1024" using fit by (simp add: q_def E_def)
  show "binary64 v"
  proof (cases "q < 2 ^ 53")
    case True
    have "E \<le> 971"
    proof (cases "- 1074 < E")
      case True
      then have "2 ^ 52 \<le> q" by (rule qb(3))
      then have "52 < bitlen q" by (rule bitlen_ge)
      then show ?thesis using fit' by linarith
    next
      case False
      then show ?thesis by simp
    qed
    moreover have "\<bar>q\<bar> < 2 ^ 53" using True qb(1) by simp
    ultimately show ?thesis
      unfolding binary64_def v W_def using Ege by blast
  next
    case False
    then have q: "q = 2 ^ 53" using qb(2) by simp
    then have "53 < bitlen q" by (intro bitlen_ge) simp
    then have E: "E + 1 \<le> 971" using fit' by linarith
    have "v = real_of_int (2 ^ 52) * 2 powi (E + 1)"
      by (simp add: v q W_def power_int_add)
    moreover have "\<bar>(2::int) ^ 52\<bar> < 2 ^ 53" by simp
    moreover have "- 1074 \<le> E + 1" using Ege by simp
    ultimately show ?thesis unfolding binary64_def using E by blast
  qed
  show "\<bar>v - x\<bar> \<le> \<bar>z - x\<bar>" if bz: "binary64 z"
  proof -
    obtain qz Ez where z: "\<bar>qz\<bar> < 2 ^ 53" "- 1074 \<le> Ez" "Ez \<le> 971" "z = real_of_int qz * 2 powi Ez"
      using bz unfolding binary64_def by blast
    have scale: "\<bar>v - x\<bar> = \<bar>real_of_int q - y\<bar> * W"
      using W by (simp add: v xy abs_mult flip: left_diff_distrib)
    show ?thesis
    proof (cases "E \<le> Ez")
      case True
      define t where "t = qz * 2 ^ nat (Ez - E)"
      have "(2::real) powi Ez = 2 powi (Ez - E) * W"
        by (simp add: W_def flip: power_int_add)
      also have "(2::real) powi (Ez - E) = 2 ^ nat (Ez - E)"
        using True by (simp add: power_int_def)
      finally have "z = real_of_int t * W" by (simp add: z(4) t_def)
      then have "\<bar>z - x\<bar> = \<bar>real_of_int t - y\<bar> * W"
        using W by (simp add: xy abs_mult flip: left_diff_distrib)
      then show ?thesis using near [of t] W by (simp add: scale)
    next
      case False
      then have lt: "Ez \<le> E - 1" by simp
      then have "- 1074 < E" using z(2) by simp
      then have y52: "2 ^ 52 \<le> y" by (rule sb(3))
      have "\<bar>z\<bar> = real_of_int \<bar>qz\<bar> * 2 powi Ez" by (simp add: z(4) abs_mult)
      also have "\<dots> \<le> real_of_int (2 ^ 53) * 2 powi Ez"
        using z(1) by (intro mult_right_mono) (simp_all only: of_int_le_iff, simp_all)
      also have "\<dots> \<le> real_of_int (2 ^ 53) * 2 powi (E - 1)"
        using lt by (intro mult_left_mono power_int_increasing) simp_all
      also have "\<dots> = 2 ^ 52 * W"
        by (simp add: W_def power_int_diff)
      finally have zle: "\<bar>z\<bar> \<le> 2 ^ 52 * W" .
      have "2 ^ 52 * W \<le> x" unfolding xy using y52 W by simp
      with zle have d: "x - 2 ^ 52 * W \<le> \<bar>z - x\<bar>" by linarith
      have "\<bar>real_of_int q - y\<bar> \<le> y - 2 ^ 52"
        using near [of "2 ^ 52"] y52 by simp
      then have "\<bar>real_of_int q - y\<bar> * W \<le> (y - 2 ^ 52) * W"
        using W by (simp add: mult_right_mono)
      also have "\<dots> = x - 2 ^ 52 * W" by (simp add: xy left_diff_distrib)
      finally show ?thesis using d by (simp add: scale)
    qed
  qed
qed

lemma binary64_zero: "binary64 0"
  unfolding binary64_def by (rule exI [of _ 0], rule exI [of _ 0]) simp

lemma rnd_frac_nearest:
  fixes a b e :: int
  assumes "0 < b" and res: "rnd_frac a b e = Fin m e'"
  defines "x \<equiv> real_of_int a / real_of_int b * 2 powi e"
    and "v \<equiv> real_of_int m * 2 powi e'"
  shows "binary64 v" and "binary64 z \<Longrightarrow> \<bar>v - x\<bar> \<le> \<bar>z - x\<bar>"
proof -
  have "binary64 v \<and> (binary64 z \<longrightarrow> \<bar>v - x\<bar> \<le> \<bar>z - x\<bar>)"
  proof (cases "a = 0")
    case True
    then have "v = 0" "x = 0" using res by (simp_all add: v_def x_def)
    then show ?thesis using binary64_zero by simp
  next
    case nz: False
    define n where "n = \<bar>a\<bar>"
    define E where "E = ulp_exp n b e"
    define q where "q = round_quot n b e"
    have npos: "0 < n" using nz by (simp add: n_def)
    have unf: "rnd_frac a b e =
        (if 1024 < int (bitlen q) + E then (if 0 < a then PInf else NInf)
         else fin (if 0 < a then q else - q) E)"
      using nz by (simp add: rnd_frac_def Let_def n_def q_def E_def)
    have fit: "int (bitlen (round_quot n b e)) + ulp_exp n b e \<le> 1024"
      using res unfolding unf q_def E_def by (auto split: if_splits)
    have fn: "fin (if 0 < a then q else - q) E = Fin m e'"
      using res fit unfolding unf q_def E_def by (auto split: if_splits)
    note rp = round_pos [OF npos assms(1) fit]
    show ?thesis
    proof (cases "0 < a")
      case True
      then have "v = real_of_int (round_quot n b e) * 2 powi ulp_exp n b e"
        using fin_value [OF fn] by (simp add: v_def q_def E_def)
      moreover have "x = real_of_int n / real_of_int b * 2 powi e"
        using True by (simp add: x_def n_def)
      ultimately show ?thesis using rp(1) rp(2) [of z] by simp
    next
      case False
      define v' where "v' = real_of_int (round_quot n b e) * 2 powi ulp_exp n b e"
      define x' where "x' = real_of_int n / real_of_int b * 2 powi e"
      have v: "v = - v'"
        using False fin_value [OF fn] by (simp add: v_def v'_def q_def E_def)
      have x: "x = - x'"
        using False nz by (simp add: x_def x'_def n_def)
      have b: "binary64 (- v')" using rp(1) unfolding v'_def by (rule binary64_minus)
      have "\<bar>- v' - - x'\<bar> \<le> \<bar>z - - x'\<bar>" if "binary64 z"
      proof -
        have "\<bar>v' - x'\<bar> \<le> \<bar>- z - x'\<bar>"
          unfolding v'_def x'_def using binary64_minus [OF that] by (rule rp(2))
        then show ?thesis by linarith
      qed
      with b show ?thesis unfolding v x by blast
    qed
  qed
  then show "binary64 v" and "binary64 z \<Longrightarrow> \<bar>v - x\<bar> \<le> \<bar>z - x\<bar>" by simp_all
qed

lemma rnd_frac_infinite:
  fixes a b e :: int
  assumes "0 < b"
  defines "x \<equiv> real_of_int a / real_of_int b * 2 powi e"
  shows "rnd_frac a b e \<noteq> NaN"
    and "rnd_frac a b e = PInf \<Longrightarrow> 2 ^ 1024 - 2 ^ 970 \<le> x"
    and "rnd_frac a b e = NInf \<Longrightarrow> x \<le> - (2 ^ 1024 - 2 ^ 970)"
proof -
  define n where "n = \<bar>a\<bar>"
  define E where "E = ulp_exp n b e"
  define q where "q = round_quot n b e"
  define y where "y = real_of_int n / real_of_int b * 2 powi e * 2 powi (- E)"
  have unf: "a \<noteq> 0 \<Longrightarrow> rnd_frac a b e =
      (if 1024 < int (bitlen q) + E then (if 0 < a then PInf else NInf)
       else fin (if 0 < a then q else - q) E)"
    by (simp add: rnd_frac_def Let_def n_def q_def E_def)
  show "rnd_frac a b e \<noteq> NaN"
  proof (cases "a = 0")
    case True
    then show ?thesis by simp
  next
    case False
    then show ?thesis
      using fin_is_Fin [of "if 0 < a then q else - q" E] by (auto simp: unf)
  qed
  have big: "2 ^ 1024 - 2 ^ 970 \<le> real_of_int n / real_of_int b * 2 powi e"
    if nz: "a \<noteq> 0" and ov: "1024 < int (bitlen q) + E"
  proof -
    have npos: "0 < n" using nz by (simp add: n_def)
    note qb = round_quot_bounds [OF npos assms(1), of e, folded q_def E_def]
    note sb = scaled_bounds [OF npos assms(1), of e, folded E_def, folded y_def]
    have half: "\<bar>real_of_int q - y\<bar> \<le> 1 / 2"
    proof -
      obtain N D where "0 < D" "round_quot n b e = round_div N D"
        "real_of_int N / real_of_int D =
           real_of_int n / real_of_int b * 2 powi e * 2 powi (- ulp_exp n b e)"
        using round_quot_ratio [OF npos assms(1)] by blast
      then show ?thesis using round_div_half [of D N] by (simp add: q_def y_def E_def)
    qed
    have xy: "real_of_int n / real_of_int b * 2 powi e = y * 2 powi E"
      by (simp add: y_def power_int_minus field_simps)
    have "q < 2 ^ 54" using qb(2) by simp
    have bl: "bitlen q \<le> 54"
    proof (rule ccontr)
      assume "\<not> bitlen q \<le> 54"
      then have b: "55 \<le> bitlen q" by simp
      then have "0 < q" by (metis bitlen.simps not_le zero_less_numeral not_less_eq_eq le0 order_less_le_trans less_le_not_le)
      then have "2 ^ (bitlen q - 1) \<le> q" using bitlen_bounds by blast
      moreover have "(2::int) ^ 54 \<le> 2 ^ (bitlen q - 1)" using b by (intro power_increasing) auto
      ultimately show False using \<open>q < 2 ^ 54\<close> by linarith
    qed
    then have E971: "971 \<le> E" using ov by linarith
    then have "- 1074 < E" by simp
    then have y52: "2 ^ 52 \<le> y" by (rule sb(3))
    show ?thesis
    proof (cases "E = 971")
      case True
      then have "53 < bitlen q" using ov by linarith
      then have "54 \<le> bitlen q" by simp
      have qpos: "0 < q"
        using \<open>53 < bitlen q\<close> by (metis bitlen.simps not_less0 not_le)
      then have "2 ^ (bitlen q - 1) \<le> q" using bitlen_bounds by blast
      moreover have "(2::int) ^ 53 \<le> 2 ^ (bitlen q - 1)"
        using \<open>54 \<le> bitlen q\<close> by (intro power_increasing) auto
      ultimately have "2 ^ 53 \<le> q" by linarith
      then have "(2::real) ^ 53 \<le> real_of_int q" by simp
      then have "2 ^ 53 - 1 / 2 \<le> y" using half by linarith
      then have "(2 ^ 53 - 1 / 2) * 2 powi 971 \<le> y * 2 powi 971"
        by (intro mult_right_mono) simp_all
      moreover have "(2 ^ 53 - 1 / 2) * (2::real) powi 971 = 2 ^ 1024 - 2 ^ 970"
        by (simp add: left_diff_distrib flip: power_add)
      ultimately show ?thesis unfolding xy True by simp
    next
      case False
      then have "972 \<le> E" using E971 by simp
      then have "(2::real) powi 972 \<le> 2 powi E" by (intro power_int_increasing) simp_all
      then have "2 ^ 52 * (2::real) powi 972 \<le> y * 2 powi E"
        using y52 by (intro mult_mono) simp_all
      moreover have "2 ^ 52 * (2::real) powi 972 = 2 ^ 1024" by (simp flip: power_add)
      ultimately show ?thesis unfolding xy by simp
    qed
  qed
  show "2 ^ 1024 - 2 ^ 970 \<le> x" if "rnd_frac a b e = PInf"
  proof -
    have nz: "a \<noteq> 0" using that by auto
    have "0 < a \<and> 1024 < int (bitlen q) + E"
      using that fin_is_Fin [of "if 0 < a then q else - q" E] unfolding unf [OF nz]
      by (auto split: if_splits)
    then show ?thesis using big [OF nz] by (simp add: x_def n_def)
  qed
  show "x \<le> - (2 ^ 1024 - 2 ^ 970)" if "rnd_frac a b e = NInf"
  proof -
    have nz: "a \<noteq> 0" using that by auto
    have "a < 0 \<and> 1024 < int (bitlen q) + E"
      using that nz fin_is_Fin [of "if 0 < a then q else - q" E] unfolding unf [OF nz]
      by (auto split: if_splits)
    then show ?thesis using big [OF nz] by (simp add: x_def n_def)
  qed
qed

lemma rnd_frac_nearest_binary64:
  "0 < b \<Longrightarrow> rnd_frac a b e = Fin m e' \<Longrightarrow>
   nearest_binary64 (dyadic m e') (real_of_int a / real_of_int b * 2 powi e)"
  unfolding nearest_binary64_def dyadic_def using rnd_frac_nearest [of b a e m e'] by blast

lemma shift_sum:
  "real_of_int (m1 * p2 (e1 - min e1 e2) + m2 * p2 (e2 - min e1 e2)) * 2 powi (min e1 e2) =
   dyadic m1 e1 + dyadic m2 e2"
proof -
  have a: "real_of_int (p2 (e1 - min e1 e2)) * 2 powi (min e1 e2) = 2 powi e1"
    by (simp add: p2_powi flip: power_int_add)
  have b: "real_of_int (p2 (e2 - min e1 e2)) * 2 powi (min e1 e2) = 2 powi e2"
    by (simp add: p2_powi flip: power_int_add)
  have "real_of_int (m1 * p2 (e1 - min e1 e2) + m2 * p2 (e2 - min e1 e2)) * 2 powi (min e1 e2) =
      real_of_int m1 * (real_of_int (p2 (e1 - min e1 e2)) * 2 powi (min e1 e2)) +
      real_of_int m2 * (real_of_int (p2 (e2 - min e1 e2)) * 2 powi (min e1 e2))"
    by (simp add: algebra_simps)
  then show ?thesis unfolding a b dyadic_def .
qed

lemma f64_add_nearest:
  assumes "f64_add (Fin m1 e1) (Fin m2 e2) = Fin m e"
  shows "nearest_binary64 (dyadic m e) (dyadic m1 e1 + dyadic m2 e2)"
  using rnd_frac_nearest_binary64 [of 1 "m1 * p2 (e1 - min e1 e2) + m2 * p2 (e2 - min e1 e2)"
      "min e1 e2" m e] assms shift_sum [of m1 e1 e2 m2]
  by (simp add: Let_def)

lemma f64_sub_nearest:
  assumes "f64_sub (Fin m1 e1) (Fin m2 e2) = Fin m e"
  shows "nearest_binary64 (dyadic m e) (dyadic m1 e1 - dyadic m2 e2)"
  using f64_add_nearest [of m1 e1 "- m2" e2 m e] assms
  by (simp add: f64_sub_def dyadic_def)

lemma f64_div_nearest:
  assumes "f64_div (Fin m1 e1) (Fin m2 e2) = Fin m e" and "m2 \<noteq> 0"
  shows "nearest_binary64 (dyadic m e) (dyadic m1 e1 / dyadic m2 e2)"
proof -
  have r: "rnd_frac (if 0 < m2 then m1 else - m1) \<bar>m2\<bar> (e1 - e2) = Fin m e"
    using assms by simp
  have "real_of_int (if 0 < m2 then m1 else - m1) / real_of_int \<bar>m2\<bar> * 2 powi (e1 - e2) =
      dyadic m1 e1 / dyadic m2 e2"
    using assms(2) by (simp add: dyadic_def power_int_diff abs_if)
  then show ?thesis
    using rnd_frac_nearest_binary64 [OF _ r] assms(2) by simp
qed

lemma f64_of_nat_nearest:
  assumes "f64_of_nat k = Fin m e"
  shows "nearest_binary64 (dyadic m e) (real k)"
  using rnd_frac_nearest_binary64 [of 1 "int k" 0 m e] assms
  by (simp add: f64_of_nat_def)

lemma f64_lit_nearest:
  assumes "f64_lit x = Fin m e"
  shows "nearest_binary64 (dyadic m e) (real_of_rat x)"
proof -
  obtain a b where q: "quotient_of x = (a, b)" by (cases "quotient_of x")
  have b: "0 < b" using q by (rule quotient_of_denom_pos)
  have x: "x = rat_of_int a / rat_of_int b" using q by (rule quotient_of_div)
  have "real_of_rat x = real_of_int a / real_of_int b"
    unfolding x by (simp add: of_rat_divide)
  then show ?thesis
    using rnd_frac_nearest_binary64 [OF b, of a 0 m e] assms q by (simp add: f64_lit_def)
qed

lemma nearest_grid:
  fixes q E :: int and y z :: real
  assumes near: "\<And>t::int. \<bar>real_of_int q - y\<bar> \<le> \<bar>real_of_int t - y\<bar>"
    and y52: "- 1074 < E \<Longrightarrow> 2 ^ 52 \<le> y"
    and bz: "binary64 z"
  shows "\<bar>real_of_int q * 2 powi E - y * 2 powi E\<bar> \<le> \<bar>z - y * 2 powi E\<bar>"
proof -
  define W where "W = (2::real) powi E"
  have W: "0 < W" by (simp add: W_def)
  obtain qz Ez where z: "\<bar>qz\<bar> < 2 ^ 53" "- 1074 \<le> Ez" "Ez \<le> 971" "z = real_of_int qz * 2 powi Ez"
    using bz unfolding binary64_def by blast
  have scale: "\<bar>real_of_int q * W - y * W\<bar> = \<bar>real_of_int q - y\<bar> * W"
    using W by (simp add: abs_mult flip: left_diff_distrib)
  have "\<bar>real_of_int q * W - y * W\<bar> \<le> \<bar>z - y * W\<bar>"
  proof (cases "E \<le> Ez")
    case True
    define t where "t = qz * 2 ^ nat (Ez - E)"
    have "(2::real) powi Ez = 2 powi (Ez - E) * W"
      by (simp add: W_def flip: power_int_add)
    also have "(2::real) powi (Ez - E) = 2 ^ nat (Ez - E)"
      using True by (simp add: power_int_def)
    finally have "z = real_of_int t * W" by (simp add: z(4) t_def)
    then have "\<bar>z - y * W\<bar> = \<bar>real_of_int t - y\<bar> * W"
      using W by (simp add: abs_mult flip: left_diff_distrib)
    then show ?thesis using near [of t] W by (simp add: scale)
  next
    case False
    then have lt: "Ez \<le> E - 1" by simp
    then have "- 1074 < E" using z(2) by simp
    then have y52': "2 ^ 52 \<le> y" by (rule y52)
    have "\<bar>z\<bar> = real_of_int \<bar>qz\<bar> * 2 powi Ez" by (simp add: z(4) abs_mult)
    also have "\<dots> \<le> real_of_int (2 ^ 53) * 2 powi Ez"
      using z(1) by (intro mult_right_mono) (simp_all only: of_int_le_iff, simp_all)
    also have "\<dots> \<le> real_of_int (2 ^ 53) * 2 powi (E - 1)"
      using lt by (intro mult_left_mono power_int_increasing) simp_all
    also have "\<dots> = 2 ^ 52 * W"
      by (simp add: W_def power_int_diff)
    finally have zle: "\<bar>z\<bar> \<le> 2 ^ 52 * W" .
    have "2 ^ 52 * W \<le> y * W" using y52' W by simp
    with zle have d: "y * W - 2 ^ 52 * W \<le> \<bar>z - y * W\<bar>" by linarith
    have "\<bar>real_of_int q - y\<bar> \<le> y - 2 ^ 52"
      using near [of "2 ^ 52"] y52' by simp
    then have "\<bar>real_of_int q - y\<bar> * W \<le> (y - 2 ^ 52) * W"
      using W by (simp add: mult_right_mono)
    also have "\<dots> = y * W - 2 ^ 52 * W" by (simp add: left_diff_distrib)
    finally show ?thesis using d by (simp add: scale)
  qed
  then show ?thesis by (simp add: W_def)
qed

lemma sticky_int:
  fixes a b c :: int
  assumes "4 dvd a" "4 dvd b" "odd c" "a \<noteq> b" "\<bar>a - c\<bar> \<le> \<bar>b - c\<bar>"
  shows "\<bar>a - c\<bar> + 2 \<le> \<bar>b - c\<bar>"
proof -
  obtain a' where a: "a = 4 * a'" using assms(1) by (auto elim: dvdE)
  obtain b' where b: "b = 4 * b'" using assms(2) by (auto elim: dvdE)
  obtain c' where c: "c = 2 * c' + 1" using assms(3) by (auto elim: oddE)
  show ?thesis using assms(4,5) unfolding a b c by presburger
qed

lemma sticky_round:
  fixes a b c :: int and x :: real
  assumes "4 dvd a" "4 dvd b" "odd c"
    and le: "\<bar>real_of_int a - real_of_int c\<bar> \<le> \<bar>real_of_int b - real_of_int c\<bar>"
    and x: "\<bar>x - real_of_int c\<bar> < 1"
  shows "\<bar>real_of_int a - x\<bar> \<le> \<bar>real_of_int b - x\<bar>"
proof (cases "a = b")
  case True
  then show ?thesis by simp
next
  case False
  have "\<bar>real_of_int (a - c)\<bar> \<le> \<bar>real_of_int (b - c)\<bar>" using le by simp
  then have "real_of_int \<bar>a - c\<bar> \<le> real_of_int \<bar>b - c\<bar>" by (simp only: of_int_abs)
  then have "\<bar>a - c\<bar> \<le> \<bar>b - c\<bar>" by (simp only: of_int_le_iff)
  then have "\<bar>a - c\<bar> + 2 \<le> \<bar>b - c\<bar>" by (rule sticky_int [OF assms(1-3) False])
  then have "real_of_int (\<bar>a - c\<bar> + 2) \<le> real_of_int \<bar>b - c\<bar>" by (simp only: of_int_le_iff)
  then have "\<bar>real_of_int a - real_of_int c\<bar> + 2 \<le> \<bar>real_of_int b - real_of_int c\<bar>" by simp
  then show ?thesis using x by linarith
qed

lemma sqrt_powi_even: "sqrt (2 powi (2 * k)) = 2 powi k"
proof (rule real_sqrt_unique)
  show "((2::real) powi k)\<^sup>2 = 2 powi (2 * k)"
    by (simp add: power2_eq_square flip: power_int_add)
  show "(0::real) \<le> 2 powi k" by simp
qed

lemma isqrt_real:
  assumes "0 \<le> t"
  shows "real_of_int (isqrt t) \<le> sqrt (real_of_int t)"
    and "sqrt (real_of_int t) < real_of_int (isqrt t) + 1"
    and "isqrt t * isqrt t \<noteq> t \<Longrightarrow> real_of_int (isqrt t) < sqrt (real_of_int t)"
    and "isqrt t * isqrt t = t \<Longrightarrow> sqrt (real_of_int t) = real_of_int (isqrt t)"
proof -
  define r where "r = isqrt t"
  have b: "0 \<le> r" "r * r \<le> t" "t < (r + 1) * (r + 1)"
    using isqrt_bounds [OF assms] by (simp_all add: r_def)
  have lo: "real_of_int (r * r) \<le> real_of_int t" using b(2) by (simp only: of_int_le_iff)
  have hi: "real_of_int t < real_of_int ((r + 1) * (r + 1))" using b(3) by (simp only: of_int_less_iff)
  have r0: "0 \<le> real_of_int r" using b(1) by simp
  show "real_of_int (isqrt t) \<le> sqrt (real_of_int t)"
    unfolding r_def [symmetric] using lo by (intro real_le_rsqrt) (simp add: power2_eq_square)
  show "sqrt (real_of_int t) < real_of_int (isqrt t) + 1"
    unfolding r_def [symmetric] using hi r0 
    by (intro real_less_lsqrt) (simp_all add: power2_eq_square)
  show "real_of_int (isqrt t) < sqrt (real_of_int t)" if "isqrt t * isqrt t \<noteq> t"
  proof -
    have "r * r < t" using that b(2) by (simp add: r_def)
    then have "real_of_int (r * r) < real_of_int t" by (simp only: of_int_less_iff)
    then have "(real_of_int r)\<^sup>2 < real_of_int t" by (simp add: power2_eq_square)
    then show ?thesis unfolding r_def [symmetric] using r0 by (intro real_less_rsqrt)
  qed
  show "sqrt (real_of_int t) = real_of_int (isqrt t)" if "isqrt t * isqrt t = t"
  proof -
    have "real_of_int t = (real_of_int r)\<^sup>2"
      using that by (simp add: r_def power2_eq_square flip: of_int_mult)
    then show ?thesis unfolding r_def [symmetric] using r0 by simp
  qed
qed

lemma rnd_frac_pos_value:
  assumes "0 < a" and "rnd_frac a b e = Fin m e'"
  shows "dyadic m e' = real_of_int (round_quot a b e) * 2 powi (ulp_exp a b e)"
proof -
  have "fin (round_quot a b e) (ulp_exp a b e) = Fin m e'"
    using assms by (auto simp: rnd_frac_def Let_def split: if_splits)
  then show ?thesis unfolding dyadic_def by (rule fin_value)
qed

lemma sqrt_scaled_large:
  fixes m1 :: int
  assumes "0 < m1"
  defines "j \<equiv> max 0 ((109 - int (bitlen m1)) div 2)"
  shows "2 ^ 107 \<le> m1 * p2 (2 * j)"
proof -
  have j0: "0 \<le> j" by (simp add: j_def)
  have "109 - int (bitlen m1) \<le> 2 * j + 1" unfolding j_def by linarith
  then have ex: "107 \<le> (int (bitlen m1) - 1) + 2 * j" by linarith
  have bl: "0 < bitlen m1" using assms(1) by (rule bitlen_pos)
  have "(2::int) ^ 107 \<le> 2 ^ ((bitlen m1 - 1) + nat (2 * j))"
    using ex j0 bl by (intro power_increasing) auto
  also have "\<dots> = 2 ^ (bitlen m1 - 1) * 2 ^ nat (2 * j)" by (simp add: power_add)
  also have "\<dots> \<le> m1 * 2 ^ nat (2 * j)"
    using bitlen_bounds [OF assms(1)] by (intro mult_right_mono) simp_all
  finally show ?thesis by (simp add: p2_eq)
qed

lemma isqrt_large:
  assumes "2 ^ 107 \<le> t"
  shows "2 ^ 53 \<le> isqrt t"
proof (rule ccontr)
  assume "\<not> 2 ^ 53 \<le> isqrt t"
  have "(0::int) \<le> 2 ^ 107" by simp
  then have t0: "0 \<le> t" using assms by linarith
  note b = isqrt_bounds [OF t0]
  have "isqrt t + 1 \<le> 2 ^ 53" using \<open>\<not> 2 ^ 53 \<le> isqrt t\<close> by simp
  then have "(isqrt t + 1) * (isqrt t + 1) \<le> 2 ^ 53 * 2 ^ 53"
    using b by (intro mult_mono) simp_all
  then show False using b assms by simp
qed

lemma abs_scale:
  fixes G w c :: real
  assumes "0 < G"
  shows "\<bar>w * G - c\<bar> = \<bar>w - c / G\<bar> * G"
proof -
  have "(w - c / G) * G = w * G - c" using assms by (simp add: field_simps)
  then have "\<bar>w * G - c\<bar> = \<bar>(w - c / G) * G\<bar>" by simp
  also have "\<dots> = \<bar>w - c / G\<bar> * G" using assms by (simp add: abs_mult)
  finally show ?thesis .
qed

lemma f64_sqrt_nearest:
  assumes mpos: "0 < m" and res: "f64_sqrt (Fin m e) = Fin m' e'"
  shows "nearest_binary64 (dyadic m' e') (sqrt (dyadic m e))"
proof -
  define m1 where "m1 = (if even e then m else 2 * m)"
  define e1 where "e1 = (if even e then e else e - 1)"
  define j where "j = max 0 ((109 - int (bitlen m1)) div 2)"
  define t where "t = m1 * p2 (2 * j)"
  define r where "r = isqrt t"
  define c where "c = 2 * r + (if r * r = t then 0 else 1)"
  define eu where "eu = e1 div 2 - j - 1"
  define E where "E = ulp_exp c 1 eu"
  define q where "q = round_quot c 1 eu"
  define x where "x = 2 * sqrt (real_of_int t)"
  define G where "G = (2::int) ^ nat (E - eu)"
  have rf: "rnd_frac c 1 eu = Fin m' e'"
    using assms by (simp add: sqrt_frac_def Let_def m1_def e1_def j_def t_def r_def c_def eu_def)
  have m1pos: "0 < m1" using mpos by (simp add: m1_def)
  have j0: "0 \<le> j" by (simp add: j_def)
  have ev: "even e1" by (simp add: e1_def)
  have tbig: "2 ^ 107 \<le> t" unfolding t_def j_def using m1pos by (rule sqrt_scaled_large)
  moreover have "(0::int) \<le> 2 ^ 107" by simp
  ultimately have t0: "0 \<le> t" by linarith
  have rbig: "2 ^ 53 \<le> r" unfolding r_def using tbig by (rule isqrt_large)
  have cbig: "2 ^ 54 \<le> c" using rbig by (simp add: c_def)
  moreover have "(0::int) < 2 ^ 54" by simp
  ultimately have cpos: "0 < c" by linarith
  have val: "sqrt (dyadic m e) = x * 2 powi eu"
  proof -
    define k where "k = e1 div 2 - j"
    have "dyadic m e = real_of_int m1 * 2 powi e1"
    proof (cases "even e")
      case True
      then show ?thesis by (simp add: dyadic_def m1_def e1_def)
    next
      case False
      have "(2::real) powi e = 2 * 2 powi (e - 1)"
        using power_int_add [of "2::real" 1 "e - 1"] by simp
      with False show ?thesis by (simp add: dyadic_def m1_def e1_def)
    qed
    also have "\<dots> = real_of_int t * 2 powi (e1 - 2 * j)"
    proof -
      have "real_of_int t = real_of_int m1 * 2 powi (2 * j)"
        using j0 by (simp add: t_def p2_powi)
      then show ?thesis by (simp flip: power_int_add)
    qed
    also have "e1 - 2 * j = 2 * k" using ev by (auto simp: k_def elim: evenE)
    finally have "dyadic m e = real_of_int t * 2 powi (2 * k)" .
    then have "sqrt (dyadic m e) = sqrt (real_of_int t) * sqrt (2 powi (2 * k))"
      by (simp only: real_sqrt_mult)
    also have "sqrt ((2::real) powi (2 * k)) = 2 powi k" by (rule sqrt_powi_even)
    also have "(2::real) powi k = 2 * 2 powi eu"
      using power_int_add [of "2::real" 1 eu] by (simp add: eu_def k_def)
    finally show ?thesis by (simp add: x_def)
  qed
  have "54 < bitlen c" using cbig by (rule bitlen_ge)
  then have "54 \<le> floor_log2 c 1" using cpos by (simp add: floor_log2_int)
  then have Eeu: "eu + 2 \<le> E" by (simp add: E_def ulp_exp_def)
  have G4: "4 dvd G"
  proof -
    have "2 \<le> nat (E - eu)" using Eeu by simp
    then obtain k where k: "nat (E - eu) = 2 + k" by (auto simp: nat_le_iff_add)
    have "G = 4 * 2 ^ k" by (simp add: G_def k power_add)
    then show ?thesis by simp
  qed
  have Gpos: "0 < G" by (simp add: G_def)
  have Gr: "real_of_int G = 2 powi (E - eu)" using Eeu by (simp add: G_def power_int_def)
  have Gr_pos: "0 < real_of_int G" using Gpos by simp
  have yc: "real_of_int c / real_of_int 1 * 2 powi eu * 2 powi (- ulp_exp c 1 eu) =
      real_of_int c / real_of_int G"
    unfolding Gr E_def [symmetric] by (simp add: power_int_diff power_int_minus field_simps)
  have near_c: "\<bar>real_of_int q - real_of_int c / real_of_int G\<bar>
      \<le> \<bar>real_of_int u - real_of_int c / real_of_int G\<bar>" for u
    using round_quot_nearest [of c 1 eu u] cpos unfolding yc q_def by simp
  have near_cG: "\<bar>real_of_int (q * G) - real_of_int c\<bar> \<le> \<bar>real_of_int (u * G) - real_of_int c\<bar>" for u
  proof -
    have a: "\<bar>real_of_int (w * G) - real_of_int c\<bar> =
        \<bar>real_of_int w - real_of_int c / real_of_int G\<bar> * real_of_int G" for w
      using abs_scale [OF Gr_pos, of "real_of_int w" "real_of_int c"] by simp
    show ?thesis unfolding a using near_c [of u] Gr_pos by (simp add: mult_right_mono)
  qed
  have near_xG: "\<bar>real_of_int (q * G) - x\<bar> \<le> \<bar>real_of_int (u * G) - x\<bar>" for u
  proof (cases "r * r = t")
    case True
    then have "x = real_of_int c"
      using isqrt_real(4) [OF t0] by (simp add: x_def c_def r_def)
    then show ?thesis using near_cG [of u] by simp
  next
    case False
    then have c: "c = 2 * r + 1" by (simp add: c_def)
    have "real_of_int r < sqrt (real_of_int t)" "sqrt (real_of_int t) < real_of_int r + 1"
      using isqrt_real(2,3) [OF t0] False by (simp_all add: r_def)
    then have xc: "\<bar>x - real_of_int c\<bar> < 1" unfolding x_def c by simp
    have d1: "4 dvd q * G" and d2: "4 dvd u * G" using G4 by simp_all
    have oc: "odd c" by (simp add: c)
    show ?thesis by (rule sticky_round [OF d1 d2 oc near_cG xc])
  qed
  have near_x: "\<bar>real_of_int q - x / real_of_int G\<bar> \<le> \<bar>real_of_int u - x / real_of_int G\<bar>" for u
  proof -
    have a: "\<bar>real_of_int (w * G) - x\<bar> = \<bar>real_of_int w - x / real_of_int G\<bar> * real_of_int G" for w
      using abs_scale [OF Gr_pos, of "real_of_int w" x] by simp
    have "\<bar>real_of_int q - x / real_of_int G\<bar> * real_of_int G
        \<le> \<bar>real_of_int u - x / real_of_int G\<bar> * real_of_int G"
      using near_xG [of u] unfolding a .
    then show ?thesis using Gr_pos by simp
  qed
  have x52: "2 ^ 52 \<le> x / real_of_int G" if "- 1074 < E"
  proof -
    have "2 ^ 52 \<le> real_of_int c / real_of_int G"
      using scaled_bounds(3) [of c 1 eu] cpos that unfolding yc E_def by simp
    then have "2 ^ 52 * real_of_int G \<le> real_of_int c" using Gr_pos by (simp add: field_simps)
    then have "real_of_int (2 ^ 52 * G) \<le> real_of_int c" by simp
    then have cG: "2 ^ 52 * G \<le> c" by (simp only: of_int_le_iff)
    have "2 ^ 52 * real_of_int G \<le> x"
    proof (cases "r * r = t")
      case True
      then have "x = real_of_int c"
        using isqrt_real(4) [OF t0] by (simp add: x_def c_def r_def)
      then show ?thesis using \<open>2 ^ 52 * real_of_int G \<le> real_of_int c\<close> by simp
    next
      case False
      then have c: "c = 2 * r + 1" by (simp add: c_def)
      have "even (2 ^ 52 * G)" by simp
      then obtain h where h: "2 ^ 52 * G = 2 * h" by (auto elim: evenE)
      have "2 * h \<le> 2 * r" using cG unfolding c h by presburger
      then have "2 ^ 52 * G \<le> 2 * r" by (simp only: h)
      then have "real_of_int (2 ^ 52 * G) \<le> real_of_int (2 * r)" by (simp only: of_int_le_iff)
      moreover have "real_of_int r < sqrt (real_of_int t)"
        using isqrt_real(3) [OF t0] False by (simp add: r_def)
      ultimately show ?thesis by (simp add: x_def)
    qed
    then show ?thesis using Gr_pos by (simp add: field_simps)
  qed
  have xG: "x / real_of_int G * 2 powi E = sqrt (dyadic m e)"
    unfolding val Gr by (simp add: power_int_diff)
  have v: "dyadic m' e' = real_of_int q * 2 powi E"
    using rnd_frac_pos_value [OF cpos rf] by (simp add: q_def E_def)
  have "binary64 (dyadic m' e')"
    using rnd_frac_nearest(1) [OF _ rf] by (simp add: dyadic_def)
  moreover have "\<bar>dyadic m' e' - sqrt (dyadic m e)\<bar> \<le> \<bar>z - sqrt (dyadic m e)\<bar>" if "binary64 z" for z
    using nearest_grid [of q "x / real_of_int G" E z, OF near_x x52 that]
    unfolding v xG by simp
  ultimately show ?thesis unfolding nearest_binary64_def by blast
qed

section \<open>The window in the store\<close>

lemma redis_range_last:
  "0 < W \<Longrightarrow> redis_range xs (- W) (- 1) = drop (length xs - nat W) xs"
  by (cases "xs = []") (auto simp: redis_range_def Let_def nat_diff_distrib' nat_add_distrib)


lemma evaluateWindow_redisClient [simp]:
  "redisClient (evaluateWindow fl m window s) = redisClient s"
  by (simp add: evaluateWindow_def Let_def)

lemma evaluateWindow_windowSize [simp]:
  "windowSize (evaluateWindow fl m window s) = windowSize s"
  by (simp add: evaluateWindow_def Let_def)

lemma analyzeGoroutine_windowSize [simp]:
  "windowSize (analyzeGoroutine fl flt m s) = windowSize s"
  by (simp add: analyzeGoroutine_def redis_RPush_def redis_LTrim_def redis_LRange_def Let_def)

lemma analyzeGoroutine_metrics:
  "metrics (redisClient (analyzeGoroutine fl flt m s)) =
     (if rpush_err flt then metrics (redisClient s)
      else if ltrim_err flt then metrics (redisClient s) @ [m]
      else redis_range (metrics (redisClient s) @ [m]) (- windowSize s) (- 1))"
  by (simp add: analyzeGoroutine_def redis_RPush_def redis_LTrim_def redis_LRange_def Let_def)

lemma drop_last_append:
  "drop (length (drop (length a - W) a @ b) - W) (drop (length a - W) a @ b) =
   drop (length (a @ b) - W) (a @ b)"
  by (cases "length a \<le> W") (auto simp: add.commute)

lemma runGoroutines_windowSize [simp]:
  "windowSize (runGoroutines fl jobs s) = windowSize s"
  by (induction jobs arbitrary: s) auto

lemma runGoroutines_metrics:
  assumes "0 < windowSize s"
    and "\<forall>j \<in> set jobs. \<not> rpush_err (fst j) \<and> \<not> ltrim_err (fst j)"
    and "jobs \<noteq> [] \<or> length (metrics (redisClient s)) \<le> nat (windowSize s)"
  shows "metrics (redisClient (runGoroutines fl jobs s)) =
     drop (length (metrics (redisClient s) @ map snd jobs) - nat (windowSize s))
       (metrics (redisClient s) @ map snd jobs)"
  using assms
proof (induction jobs arbitrary: s)
  case Nil
  then show ?case by simp
next
  case (Cons j jobs)
  obtain flt m where j: "j = (flt, m)" by (cases j)
  let ?s' = "analyzeGoroutine fl flt m s"
  let ?W = "nat (windowSize s)"
  have ok: "\<not> rpush_err flt" "\<not> ltrim_err flt" using Cons.prems(2) j by auto
  have m': "metrics (redisClient ?s') =
      drop (length (metrics (redisClient s) @ [m]) - ?W) (metrics (redisClient s) @ [m])"
    using ok Cons.prems(1) by (simp add: analyzeGoroutine_metrics redis_range_last)
  have len: "length (metrics (redisClient ?s')) \<le> nat (windowSize ?s')"
    using Cons.prems(1) by (simp add: m')
  have "metrics (redisClient (runGoroutines fl jobs ?s')) =
     drop (length (metrics (redisClient ?s') @ map snd jobs) - nat (windowSize ?s'))
       (metrics (redisClient ?s') @ map snd jobs)"
    using Cons.prems len by (intro Cons.IH) auto
  also have "\<dots> = drop (length ((metrics (redisClient s) @ [m]) @ map snd jobs) - ?W)
       ((metrics (redisClient s) @ [m]) @ map snd jobs)"
    unfolding m' analyzeGoroutine_windowSize by (rule drop_last_append)
  finally show ?case by (simp add: j)
qed

section \<open>The statistics\<close>

lemma partial_sum_foldl:
  "k \<le> length xs \<Longrightarrow>
   partial_sum fl xs k = foldl (\<lambda>sum v. f_add fl sum v) (f_zero fl) (take k xs)"
  by (induction k) (simp_all add: take_Suc_conv_app_nth)

lemma float_sum_foldl: "float_sum fl xs = foldl (\<lambda>sum v. f_add fl sum v) (f_zero fl) xs"
  by (simp add: float_sum_def partial_sum_foldl)

lemma calculateAverage_float_mean: "calculateAverage fl xs = float_mean fl xs"
  by (simp add: calculateAverage_def float_mean_def float_sum_foldl)

lemma calculateStandardDeviation_float:
  "calculateStandardDeviation fl xs mu = float_sample_stddev fl xs mu"
  by (simp add: calculateStandardDeviation_def float_sample_stddev_def float_sum_foldl foldl_map)

lemma foldl_add_exact:
  "foldl (\<lambda>acc v. acc + v) a xs = a + sum_list xs" for a :: real
  by (induction xs arbitrary: a) (auto simp: algebra_simps)

lemma float_sum_exact: "float_sum exact_ops xs = sum_list xs"
  using foldl_add_exact [of 0 xs] by (simp add: float_sum_foldl exact_ops_def)

lemma float_mean_exact: "float_mean exact_ops xs = arithmetic_mean xs"
  by (simp add: float_mean_def float_sum_exact arithmetic_mean_def) (simp add: exact_ops_def)

lemma float_sample_stddev_exact:
  "float_sample_stddev exact_ops xs (arithmetic_mean xs) = sample_stddev xs"
  by (simp add: float_sample_stddev_def float_sum_exact sample_stddev_def) (simp add: exact_ops_def)

lemma calculateAverage_Nil: "calculateAverage fl [] = f_zero fl"
  by (simp add: calculateAverage_def)

lemma calculateStandardDeviation_short:
  "length ys \<le> 1 \<Longrightarrow> calculateStandardDeviation fl ys mu = f_zero fl"
  by (simp add: calculateStandardDeviation_def)

lemma evaluateWindow_anomalyCounter:
  "anomalyCounter (evaluateWindow fl m window s) =
     (if zscore_test fl (RPS m) (map RPS window) then anomalyCounter s + 1 else anomalyCounter s)"
  by (simp add: evaluateWindow_def zscore_test_def calculateAverage_float_mean
      calculateStandardDeviation_float Let_def)

lemma evaluateWindow_log:
  "log_output (evaluateWindow fl m window s) =
     log_output s @
     (if zscore_test fl (RPS m) (map RPS window) then
        [LogAnomaly (RPS m)
           (f_div fl (f_sub fl (RPS m) (float_mean fl (map RPS window)))
              (float_sample_stddev fl (map RPS window) (float_mean fl (map RPS window))))
           (float_mean fl (map RPS window))
           (float_sample_stddev fl (map RPS window) (float_mean fl (map RPS window)))]
      else []) @
     [LogProcessed (Timestamp m) (RPS m) (CPU m) (float_mean fl (map RPS window))]"
  by (simp add: evaluateWindow_def zscore_test_def calculateAverage_float_mean
      calculateStandardDeviation_float Let_def)

lemma evaluateWindow_rollingAvgGauge:
  "rollingAvgGauge (evaluateWindow fl m window s) = calculateAverage fl (map RPS window)"
  by (simp add: evaluateWindow_def Let_def)

lemma zscore_test_short: "length xs < 2 \<Longrightarrow> \<not> zscore_test fl c xs"
  by (simp add: zscore_test_def Let_def)

lemma zscore_test_zero_stddev:
  "\<not> f_ne fl (float_sample_stddev fl xs (float_mean fl xs)) (f_zero fl) \<Longrightarrow>
   \<not> zscore_test fl c xs"
  by (simp add: zscore_test_def Let_def)




section \<open>C1: the anomaly verdict\<close>



section \<open>C2: mean and sample standard deviation\<close>

text \<open>
  C2, as the specification states it, fails in binary64. The decimal 0.1 is read as
  \<open>3602879701896397 \<sqdot> 2\<^sup>-\<^sup>5\<^sup>5\<close>. For three copies of it \<^verbatim>\<open>calculateAverage\<close> returns
  \<open>7205759403792795 \<sqdot> 2\<^sup>-\<^sup>5\<^sup>6\<close>, which is not their arithmetic mean (the value itself), and
  \<^verbatim>\<open>calculateStandardDeviation\<close> at that mean returns \<open>2757880273211543 \<sqdot> 2\<^sup>-\<^sup>1\<^sup>0\<^sup>7\<close>, which is
  not their sample standard deviation (zero). For two copies of the largest finite value
  \<^verbatim>\<open>calculateAverage\<close> returns the positive infinity.
\<close>

theorem statistics_counterexample:
  "f64_lit (1 / 10) = Fin 3602879701896397 (- 55) \<and>
   calculateAverage f64_ops (replicate 3 (Fin 3602879701896397 (- 55))) = Fin 7205759403792795 (- 56) \<and>
   arithmetic_mean (replicate 3 (dyadic 3602879701896397 (- 55))) = dyadic 3602879701896397 (- 55) \<and>
   dyadic 7205759403792795 (- 56) \<noteq> dyadic 3602879701896397 (- 55) \<and>
   calculateStandardDeviation f64_ops (replicate 3 (Fin 3602879701896397 (- 55)))
       (calculateAverage f64_ops (replicate 3 (Fin 3602879701896397 (- 55)))) = Fin 2757880273211543 (- 107) \<and>
   sample_stddev (replicate 3 (dyadic 3602879701896397 (- 55))) = 0 \<and>
   dyadic 2757880273211543 (- 107) \<noteq> 0 \<and>
   calculateAverage f64_ops (replicate 2 (Fin 9007199254740991 971)) = PInf"
proof -
  have 1: "f64_lit (1 / 10) = Fin 3602879701896397 (- 55)" by code_simp
  have 2: "calculateAverage f64_ops (replicate 3 (Fin 3602879701896397 (- 55))) = Fin 7205759403792795 (- 56)"
    by code_simp
  have 3: "arithmetic_mean (replicate 3 x) = x" for x
    by (simp add: arithmetic_mean_def numeral_3_eq_3)
  have 4: "dyadic 7205759403792795 (- 56) \<noteq> dyadic 3602879701896397 (- 55)"
    by (simp add: dyadic_def power_int_minus field_simps)
  have 5: "calculateStandardDeviation f64_ops (replicate 3 (Fin 3602879701896397 (- 55)))
       (calculateAverage f64_ops (replicate 3 (Fin 3602879701896397 (- 55)))) = Fin 2757880273211543 (- 107)"
    by code_simp
  have 6: "sample_stddev (replicate 3 x) = 0" for x
    by (simp add: sample_stddev_def 3) (simp add: numeral_3_eq_3)
  have 7: "dyadic 2757880273211543 (- 107) \<noteq> 0" by (simp add: dyadic_def)
  have 8: "calculateAverage f64_ops (replicate 2 (Fin 9007199254740991 971)) = PInf"
    by code_simp
  show ?thesis using 1 2 3 4 5 6 7 8 by blast
qed

text \<open>
  C2, amended. In every arithmetic, binary64 included, \<^verbatim>\<open>calculateAverage\<close> is the sum of
  the values, added from the left starting at 0.0, divided by their number, and
  \<^verbatim>\<open>calculateStandardDeviation\<close> is the square root of the sum, added from the left, of the
  squared differences from the given mean, divided by the number of values less one, each
  operation rounded as the arithmetic rounds it; the mean of the empty sequence is 0.0 and
  the standard deviation of a sequence of at most one value is 0.0. In exact real
  arithmetic these two formulas are the arithmetic mean and the sample standard deviation.
\<close>

theorem statistics_formulas:
  "calculateAverage fl xs = float_mean fl xs \<and>
   calculateStandardDeviation fl xs mu = float_sample_stddev fl xs mu \<and>
   calculateAverage fl [] = f_zero fl \<and>
   (length xs \<le> 1 \<longrightarrow> calculateStandardDeviation fl xs mu = f_zero fl) \<and>
   float_mean exact_ops rs = arithmetic_mean rs \<and>
   float_sample_stddev exact_ops rs (arithmetic_mean rs) = sample_stddev rs"
proof (intro conjI impI)
  show "calculateAverage fl xs = float_mean fl xs"
    by (rule calculateAverage_float_mean)
  show "calculateStandardDeviation fl xs mu = float_sample_stddev fl xs mu"
    by (rule calculateStandardDeviation_float)
  show "calculateAverage fl [] = f_zero fl"
    by (rule calculateAverage_Nil)
  show "calculateStandardDeviation fl xs mu = f_zero fl" if "length xs \<le> 1"
    using that by (rule calculateStandardDeviation_short)
  show "float_mean exact_ops rs = arithmetic_mean rs"
    by (rule float_mean_exact)
  show "float_sample_stddev exact_ops rs (arithmetic_mean rs) = sample_stddev rs"
    by (rule float_sample_stddev_exact)
qed

theorem statistics_formulas_witness:
  "calculateAverage f64_ops [Fin 1 0, Fin 1 1, Fin 3 1] = Fin 3 0 \<and>
   calculateStandardDeviation f64_ops [Fin 1 0, Fin 1 1, Fin 3 1] (Fin 3 0) = Fin 2978851154656373 (- 50) \<and>
   calculateAverage f64_ops [] = Fin 0 0 \<and>
   calculateStandardDeviation f64_ops [Fin 5 0] (Fin 5 0) = Fin 0 0"
proof -
  note t = statistics_formulas [where fl = f64_ops and xs = "[Fin 1 0, Fin 1 1, Fin 3 1]" and mu = "Fin 3 0"]
  note u = statistics_formulas [where fl = f64_ops and xs = "[Fin 5 0]" and mu = "Fin 5 0"]
  have a: "float_mean f64_ops [Fin 1 0, Fin 1 1, Fin 3 1] = Fin 3 0" by code_simp
  have b: "float_sample_stddev f64_ops [Fin 1 0, Fin 1 1, Fin 3 1] (Fin 3 0) = Fin 2978851154656373 (- 50)"
    by code_simp
  have 1: "calculateAverage f64_ops [Fin 1 0, Fin 1 1, Fin 3 1] = Fin 3 0"
    using t [THEN conjunct1] a by simp
  have 2: "calculateStandardDeviation f64_ops [Fin 1 0, Fin 1 1, Fin 3 1] (Fin 3 0) = Fin 2978851154656373 (- 50)"
    using t [THEN conjunct2, THEN conjunct1] b by simp
  have 3: "calculateAverage f64_ops [] = Fin 0 0"
    using t [THEN conjunct2, THEN conjunct2, THEN conjunct1] by simp
  have 4: "calculateStandardDeviation f64_ops [Fin 5 0] (Fin 5 0) = Fin 0 0"
    using u [THEN conjunct2, THEN conjunct2, THEN conjunct2, THEN conjunct1] by simp
  show ?thesis using 1 2 3 4 by blast
qed

section \<open>C3: the window is bounded and keeps the newest entries\<close>

text \<open>
  C3. For a positive window size \<open>W\<close> and a window of at most \<open>W\<close> entries, after any
  sequence of goroutines whose \<^verbatim>\<open>RPUSH\<close> and \<^verbatim>\<open>LTRIM\<close> both succeed, run one after the
  other, the window holds at most \<open>W\<close> entries, and they are the last \<open>W\<close> of the old
  entries followed by the appended ones: the oldest are dropped first.
\<close>

theorem window_bounded:
  assumes "0 < windowSize s"
    and "length (metrics (redisClient s)) \<le> nat (windowSize s)"
    and "\<forall>j \<in> set jobs. \<not> rpush_err (fst j) \<and> \<not> ltrim_err (fst j)"
  shows "length (metrics (redisClient (runGoroutines fl jobs s))) \<le> nat (windowSize s) \<and>
         metrics (redisClient (runGoroutines fl jobs s)) =
           drop (length (metrics (redisClient s) @ map snd jobs) - nat (windowSize s))
             (metrics (redisClient s) @ map snd jobs)"
proof -
  have eq: "metrics (redisClient (runGoroutines fl jobs s)) =
      drop (length (metrics (redisClient s) @ map snd jobs) - nat (windowSize s))
        (metrics (redisClient s) @ map snd jobs)"
    using assms by (intro runGoroutines_metrics) auto
  have "length (metrics (redisClient (runGoroutines fl jobs s))) \<le> nat (windowSize s)"
    unfolding eq using assms(1) by simp
  with eq show ?thesis by simp
qed

theorem window_bounded_witness:
  "metrics (redisClient (runGoroutines f64_ops
       [(no_faults, rps_metric 60), (no_faults, rps_metric 11)]
       (state_with (replicate 49 (rps_metric 10))))) =
     replicate 48 (rps_metric 10) @ [rps_metric 60, rps_metric 11]"
proof -
  have w: "windowSize (state_with (replicate 49 (rps_metric 10))) = 50"
    by (simp add: state_with_def main_appState_def)
  have m: "metrics (redisClient (state_with (replicate 49 (rps_metric 10)))) = replicate 49 (rps_metric 10)"
    by (simp add: state_with_def main_appState_def)
  have f: "\<forall>j \<in> set [(no_faults, rps_metric 60), (no_faults, rps_metric 11)].
      \<not> rpush_err (fst j) \<and> \<not> ltrim_err (fst j)"
    by (simp add: no_faults_def)
  have r: "replicate 49 (rps_metric 10) = rps_metric 10 # replicate 48 (rps_metric 10)"
    by (simp add: numeral_eq_Suc)
  show ?thesis
    using window_bounded [of "state_with (replicate 49 (rps_metric 10))"
        "[(no_faults, rps_metric 60), (no_faults, rps_metric 11)]" f64_ops] f
    unfolding w m by (simp add: r)
qed

section \<open>C4: the example window\<close>

text \<open>
  C4, as the specification states it, fails: for the window [10, 12, 9, 11, 10, 60] the
  sample standard deviation is not within 0.4 of 19.8, and the z-score of 60 is not
  within 0.04 of 2.09.
\<close>

theorem example_window_counterexample:
  "\<not> f64_near
       (calculateStandardDeviation f64_ops (map RPS window_60)
          (calculateAverage f64_ops (map RPS window_60)))
       (198 / 10) (4 / 10) \<and>
   \<not> f64_near
       (f64_div (f64_sub (f64_lit 60) (calculateAverage f64_ops (map RPS window_60)))
          (calculateStandardDeviation f64_ops (map RPS window_60)
             (calculateAverage f64_ops (map RPS window_60))))
       (209 / 100) (4 / 100)"
  by code_simp

text \<open>
  C4, amended. For the window [10, 12, 9, 11, 10, 60] and the submitted value 60, the
  statistics pass sets the rolling average to \<open>Fin 5254199565265579 (- 48)\<close>, within
  0.005 of 18.67, finds the sample standard deviation \<open>Fin 356677685551761 (- 44)\<close>,
  within 0.005 of 20.27, and the z-score \<open>Fin 4590648901295451 (- 51)\<close>, within 0.005 of
  2.04, logs the anomaly and increments the anomaly counter from 0 to 1. With 11 in
  place of 60 the counter is not incremented.
\<close>

theorem example_window:
  "evaluateWindow f64_ops (rps_metric 60) window_60 (state_with []) =
     (state_with [])
       \<lparr>anomalyCounter := 1,
        rollingAvgGauge := Fin 5254199565265579 (- 48),
        log_output :=
          [LogAnomaly (Fin 15 2) (Fin 4590648901295451 (- 51))
             (Fin 5254199565265579 (- 48)) (Fin 356677685551761 (- 44)),
           LogProcessed 0 (Fin 15 2) (Fin 0 0) (Fin 5254199565265579 (- 48))]\<rparr> \<and>
   f64_near (Fin 5254199565265579 (- 48)) (1867 / 100) (5 / 1000) \<and>
   f64_near (Fin 356677685551761 (- 44)) (2027 / 100) (5 / 1000) \<and>
   f64_near (Fin 4590648901295451 (- 51)) (204 / 100) (5 / 1000) \<and>
   anomalyCounter (evaluateWindow f64_ops (rps_metric 11) window_11 (state_with [])) = 0"
  by code_simp

section \<open>C5: a malformed payload\<close>

text \<open>
  C5, as the specification states it, fails: a POST with a body that does not decode is
  answered with 400 after the counter in the store and the request counter have both
  gone from 0 to 1.
\<close>

theorem malformed_counterexample:
  "Body \<lparr>Method = ''POST'', Body = None :: f64 Metric option\<rparr> = None \<and>
   StatusCode (fst (snd (handleAnalyze no_faults \<lparr>Method = ''POST'', Body = None\<rparr> (state_with [])))) = 400 \<and>
   request_count (redisClient (state_with [])) = 0 \<and>
   request_count (redisClient (fst (handleAnalyze no_faults \<lparr>Method = ''POST'', Body = None\<rparr> (state_with [])))) = 1 \<and>
   requestCounter (state_with []) = 0 \<and>
   requestCounter (fst (handleAnalyze no_faults \<lparr>Method = ''POST'', Body = None\<rparr> (state_with []))) = 1"
  by (simp add: handleAnalyze_def no_faults_def state_with_def main_appState_def redis_Incr_def)

text \<open>
  C5, amended. A POST whose body does not decode, when \<^verbatim>\<open>INCR\<close> succeeds, is answered
  with 400 and starts no goroutine; the counter in the store and the request counter
  are incremented, the increment is logged, and nothing else changes: no gauge is set
  and the window is not appended to.
\<close>

theorem malformed_rejected:
  assumes "Method r = ''POST''" and "Body r = None"
    and "redis_Incr (incr_err flt) (request_count (redisClient s)) = Inr newCount"
  shows "handleAnalyze flt r s =
           (s\<lparr>redisClient := (redisClient s)\<lparr>request_count := request_count (redisClient s) + 1\<rparr>,
              log_output := log_output s @ [LogIncremented (request_count (redisClient s) + 1)],
              requestCounter := requestCounter s + 1\<rparr>,
            \<lparr>StatusCode = 400, ResponseText = ''Invalid JSON''\<rparr>, None)"
proof -
  have "newCount = request_count (redisClient s) + 1"
    using assms(3) by (simp add: redis_Incr_def split: if_splits)
  then show ?thesis using assms by (simp add: handleAnalyze_def)
qed

theorem malformed_rejected_witness:
  "handleAnalyze no_faults \<lparr>Method = ''POST'', Body = None\<rparr> (state_with []) =
     ((state_with [])\<lparr>redisClient := \<lparr>request_count = 1, metrics = []\<rparr>,
        log_output := [LogIncremented 1], requestCounter := 1\<rparr>,
      \<lparr>StatusCode = 400, ResponseText = ''Invalid JSON''\<rparr>, None)"
proof -
  have i: "redis_Incr (incr_err no_faults) (request_count (redisClient (state_with []))) = Inr 1"
    by (simp add: redis_Incr_def no_faults_def state_with_def main_appState_def)
  show ?thesis
    using malformed_rejected [of "\<lparr>Method = ''POST'', Body = None\<rparr>" no_faults "state_with []" 1] i
    by (simp add: state_with_def main_appState_def)
qed

section \<open>C7: failures of the window update\<close>




section \<open>C8: a failed increment of the request counter\<close>

text \<open>
  C8. A POST during which \<^verbatim>\<open>INCR\<close> fails is answered with 500, not with 202; the failure
  is logged, no goroutine is started, and nothing else changes: no counter, no gauge and
  no entry of the window.
\<close>

theorem incr_failure_rejects:
  assumes "Method r = ''POST''"
    and "redis_Incr (incr_err flt) (request_count (redisClient s)) = Inl err"
  shows "handleAnalyze flt r s =
           (s\<lparr>log_output := log_output s @ [LogIncrError]\<rparr>,
            \<lparr>StatusCode = 500, ResponseText = ''Error incrementing counter''\<rparr>, None)"
  using assms by (simp add: handleAnalyze_def)

theorem incr_failure_rejects_witness:
  "handleAnalyze incr_fault \<lparr>Method = ''POST'', Body = Some (rps_metric 60)\<rparr> (state_with []) =
     ((state_with [])\<lparr>log_output := [LogIncrError]\<rparr>,
      \<lparr>StatusCode = 500, ResponseText = ''Error incrementing counter''\<rparr>, None)"
proof -
  have i: "redis_Incr (incr_err incr_fault) (request_count (redisClient (state_with []))) = Inl RedisError"
    by (simp add: redis_Incr_def incr_fault_def)
  show ?thesis
    using incr_failure_rejects [of "\<lparr>Method = ''POST'', Body = Some (rps_metric 60)\<rparr>"
        incr_fault "state_with []" RedisError] i
    by (simp add: state_with_def main_appState_def)
qed

section \<open>C9: configuration\<close>

text \<open>
  C9, as the specification states it, fails: with \<^verbatim>\<open>WINDOW_SIZE=100\<close> in the environment
  the window size is 50, while \<^verbatim>\<open>PORT=9090\<close> does set the port.
\<close>

theorem window_size_counterexample:
  "windowSize (main_appState f64_ops [''WINDOW_SIZE'' \<mapsto> ''100''] \<lparr>request_count = 0, metrics = []\<rparr>) = 50 \<and>
   port (main_config [''WINDOW_SIZE'' \<mapsto> ''100'', ''PORT'' \<mapsto> ''9090'']) = ''9090''"
  by (simp add: main_appState_def main_config_def getEnv_def os_Getenv_def)

text \<open>
  C9, amended. The window size is 50 whatever the environment holds. The address of the
  store, its password and the port are read from \<^verbatim>\<open>REDIS_ADDR\<close>, \<^verbatim>\<open>REDIS_PASSWORD\<close> and
  \<^verbatim>\<open>PORT\<close>, with their defaults when the variable is not set or is empty.
\<close>

theorem configuration:
  "windowSize (main_appState fl env rdb) = 50 \<and>
   redisAddr (main_config env) =
     (case env ''REDIS_ADDR'' of
        None \<Rightarrow> ''redis-master.default.svc.cluster.local:6379''
      | Some v \<Rightarrow> if v = [] then ''redis-master.default.svc.cluster.local:6379'' else v) \<and>
   redisPassword (main_config env) = (case env ''REDIS_PASSWORD'' of None \<Rightarrow> [] | Some v \<Rightarrow> v) \<and>
   port (main_config env) =
     (case env ''PORT'' of None \<Rightarrow> ''8080'' | Some v \<Rightarrow> if v = [] then ''8080'' else v)"
  by (simp add: main_appState_def main_config_def getEnv_def os_Getenv_def Let_def
      split: option.splits)

theorem configuration_witness:
  "windowSize (main_appState f64_ops [''PORT'' \<mapsto> ''9090''] \<lparr>request_count = 0, metrics = []\<rparr>) = 50 \<and>
   redisAddr (main_config [''PORT'' \<mapsto> ''9090'']) = ''redis-master.default.svc.cluster.local:6379'' \<and>
   redisPassword (main_config [''PORT'' \<mapsto> ''9090'']) = [] \<and>
   port (main_config [''PORT'' \<mapsto> ''9090'']) = ''9090''"
  using configuration [of f64_ops "[''PORT'' \<mapsto> ''9090'']" "\<lparr>request_count = 0, metrics = []\<rparr>"]
  by simp

section \<open>C10: only the RPS values count\<close>

text \<open>
  C10. Two statistics passes whose submitted metrics have the same RPS and whose
  windows have the same RPS values, whatever their CPU values and timestamps, set the
  same rolling average, compute the same z-score, leave the same anomaly counter and
  log the same anomaly lines. This holds in every arithmetic.
\<close>

theorem rps_only:
  assumes "RPS m1 = RPS m2" and "map RPS w1 = map RPS w2"
  shows "rollingAvgGauge (evaluateWindow fl m1 w1 s) = rollingAvgGauge (evaluateWindow fl m2 w2 s) \<and>
         f_div fl (f_sub fl (RPS m1) (calculateAverage fl (map RPS w1)))
             (calculateStandardDeviation fl (map RPS w1) (calculateAverage fl (map RPS w1))) =
           f_div fl (f_sub fl (RPS m2) (calculateAverage fl (map RPS w2)))
             (calculateStandardDeviation fl (map RPS w2) (calculateAverage fl (map RPS w2))) \<and>
         anomalyCounter (evaluateWindow fl m1 w1 s) = anomalyCounter (evaluateWindow fl m2 w2 s) \<and>
         filter is_anomaly_line (log_output (evaluateWindow fl m1 w1 s)) =
           filter is_anomaly_line (log_output (evaluateWindow fl m2 w2 s))"
  using assms
  by (simp add: evaluateWindow_rollingAvgGauge evaluateWindow_anomalyCounter evaluateWindow_log
      is_anomaly_line_def)

theorem rps_only_witness:
  "rollingAvgGauge (evaluateWindow f64_ops \<lparr>Timestamp = 1, CPU = Fin 5 0, RPS = Fin 15 2\<rparr>
       [\<lparr>Timestamp = 0, CPU = Fin 3 0, RPS = Fin 5 1\<rparr>, \<lparr>Timestamp = 1, CPU = Fin 5 0, RPS = Fin 15 2\<rparr>]
       (state_with [])) =
   rollingAvgGauge (evaluateWindow f64_ops \<lparr>Timestamp = 9, CPU = Fin 99 0, RPS = Fin 15 2\<rparr>
       [\<lparr>Timestamp = 8, CPU = Fin 7 0, RPS = Fin 5 1\<rparr>, \<lparr>Timestamp = 9, CPU = Fin 99 0, RPS = Fin 15 2\<rparr>]
       (state_with [])) \<and>
   anomalyCounter (evaluateWindow f64_ops \<lparr>Timestamp = 1, CPU = Fin 5 0, RPS = Fin 15 2\<rparr>
       [\<lparr>Timestamp = 0, CPU = Fin 3 0, RPS = Fin 5 1\<rparr>, \<lparr>Timestamp = 1, CPU = Fin 5 0, RPS = Fin 15 2\<rparr>]
       (state_with [])) =
   anomalyCounter (evaluateWindow f64_ops \<lparr>Timestamp = 9, CPU = Fin 99 0, RPS = Fin 15 2\<rparr>
       [\<lparr>Timestamp = 8, CPU = Fin 7 0, RPS = Fin 5 1\<rparr>, \<lparr>Timestamp = 9, CPU = Fin 99 0, RPS = Fin 15 2\<rparr>]
       (state_with []))"
  using rps_only [of "\<lparr>Timestamp = 1, CPU = Fin 5 0, RPS = Fin 15 2\<rparr>"
      "\<lparr>Timestamp = 9, CPU = Fin 99 0, RPS = Fin 15 2\<rparr>"
      "[\<lparr>Timestamp = 0, CPU = Fin 3 0, RPS = Fin 5 1\<rparr>, \<lparr>Timestamp = 1, CPU = Fin 5 0, RPS = Fin 15 2\<rparr>]"
      "[\<lparr>Timestamp = 8, CPU = Fin 7 0, RPS = Fin 5 1\<rparr>, \<lparr>Timestamp = 9, CPU = Fin 99 0, RPS = Fin 15 2\<rparr>]"
      f64_ops "state_with []"]
  by simp

end
